theory Spec2Isabelle
  imports Main
begin

section \<open>Distinguished-name utilities of ldap3 (\<open>ldap3/utils/dn.py\<close>)\<close>

text \<open>
  A shallow embedding of the DN tokenizer, validators and escaper.  A Python \<open>str\<close> is a
  \<open>string\<close>; one \<open>char\<close> stands for one code point below 256.  Every \<open>raise\<close> of the source
  is an \<open>Inl\<close> result, every \<open>return\<close> an \<open>Inr\<close> result.
\<close>

subsection \<open>Errors and Python values\<close>

datatype error =
    LDAPInvalidDnError string
  | IndexError
  | TypeError

text \<open>
  \<open>split_ava\<close> returns either a string or, on its last line, the bound method object
  \<open>ava.strip\<close> (the source writes \<open>ava.strip\<close> without calling it).
\<close>

datatype pyval =
    PyStr string
  | PyStripMethod string

subsection \<open>Characters and constant strings of the source\<close>

abbreviation backslash :: char where
  "backslash \<equiv> CHR 0x5C"

abbreviation dquote :: char where
  "dquote \<equiv> CHR 0x22"

abbreviation nul :: char where
  "nul \<equiv> CHR 0x00"

text \<open>\<open>string.hexdigits\<close>\<close>

definition hexdigits :: string where
  "hexdigits = ''0123456789abcdefABCDEF''"

text \<open>The literal \<open>'"#+,;<=>\00'\<close> tested in state \<open>STATE_ANY\<close>.\<close>

definition special_chars :: string where
  "special_chars = [dquote, CHR ''#'', CHR ''+'', CHR '','', CHR '';'', CHR ''<'', CHR ''='',
     CHR ''>'', nul]"

text \<open>The literal \<open>' "#+,;<=>\\\00'\<close> tested in state \<open>STATE_ESCAPE\<close>.\<close>

definition escapable_chars :: string where
  "escapable_chars = [CHR '' '', dquote, CHR ''#'', CHR ''+'', CHR '','', CHR '';'', CHR ''<'',
     CHR ''='', CHR ''>'', backslash, nul]"

text \<open>The characters allowed in an attribute type, and those refused in first position.\<close>

definition type_chars :: string where
  "type_chars = ''ABCDEFGHIJKLMNOPQRSTUVWXYZabcdefghijklmnopqrstuvwxyz0123456789-''"

definition type_first_refused :: string where
  "type_first_refused = ''0123456789-''"

subsection \<open>Python string primitives\<close>

text \<open>
  \<open>str.isspace\<close> on one code point below 256: TAB, LF, VT, FF, CR, the separators
  0x1C to 0x1F, SPACE, NEL (0x85) and NBSP (0xA0).
\<close>

definition isspace :: "char \<Rightarrow> bool" where
  "isspace c = (c \<in> set [CHR 0x09, CHR 0x0A, CHR 0x0B, CHR 0x0C, CHR 0x0D, CHR 0x1C, CHR 0x1D,
     CHR 0x1E, CHR 0x1F, CHR 0x20, CHR 0x85, CHR 0xA0])"

text \<open>\<open>s.strip()\<close>\<close>

definition strip :: "string \<Rightarrow> string" where
  "strip s = rev (dropWhile isspace (rev (dropWhile isspace s)))"

text \<open>
  Slice bounds: a negative bound counts from the end, then the bound is clipped to
  \<open>0 .. len\<close>.
\<close>

definition clip :: "nat \<Rightarrow> int \<Rightarrow> nat" where
  "clip n i = (if i < 0 then nat (int n + i) else min n (nat i))"

text \<open>\<open>s[a:b]\<close>\<close>

definition slice :: "string \<Rightarrow> int \<Rightarrow> int \<Rightarrow> string" where
  "slice s a b = take (clip (length s) b - clip (length s) a) (drop (clip (length s) a) s)"

text \<open>\<open>s[i]\<close>, raising \<open>IndexError\<close> out of range\<close>

definition getitem :: "string \<Rightarrow> int \<Rightarrow> error + char" where
  "getitem s i =
     (if 0 \<le> i \<and> i < int (length s) then Inr (s ! nat i)
      else if i < 0 \<and> - int (length s) \<le> i then Inr (s ! nat (int (length s) + i))
      else Inl IndexError)"

text \<open>\<open>s.find(c)\<close> and \<open>s.rfind(c)\<close> for a one-character \<open>c\<close>: an index, or \<open>-1\<close>.\<close>

definition str_find :: "string \<Rightarrow> char \<Rightarrow> int" where
  "str_find s c =
     (if c \<in> set s then int (length (takeWhile (\<lambda>x. x \<noteq> c) s)) else - 1)"

definition str_rfind :: "string \<Rightarrow> char \<Rightarrow> int" where
  "str_rfind s c =
     (if c \<in> set s then int (length s) - 1 - int (length (takeWhile (\<lambda>x. x \<noteq> c) (rev s)))
      else - 1)"

text \<open>\<open>s.find(c, a, b)\<close> and \<open>s.rfind(c, a, b)\<close>: the search is in \<open>s[a:b]\<close>.\<close>

definition str_find_range :: "string \<Rightarrow> char \<Rightarrow> int \<Rightarrow> int \<Rightarrow> int" where
  "str_find_range s c a b =
     (if c \<in> set (slice s a b) then int (clip (length s) a) + str_find (slice s a b) c
      else - 1)"

definition str_rfind_range :: "string \<Rightarrow> char \<Rightarrow> int \<Rightarrow> int \<Rightarrow> int" where
  "str_rfind_range s c a b =
     (if c \<in> set (slice s a b) then int (clip (length s) a) + str_rfind (slice s a b) c
      else - 1)"

subsection \<open>The escape states\<close>

datatype state = STATE_ANY | STATE_ESCAPE | STATE_ESCAPE_HEX

subsection \<open>\<open>get_next_ava\<close>\<close>

definition get_next_ava :: "string \<Rightarrow> string \<times> string" where
  "get_next_ava dn =
     (let comma = str_find dn (CHR '','');
          plus = str_find dn (CHR ''+'')
      in if plus > 0 \<and> plus < comma then
           (if str_find_range dn (CHR ''='') plus comma > 0 then (slice dn 0 plus, ''+'')
            else (slice dn 0 comma, '',''))
         else if comma > 0 then (slice dn 0 comma, '','')
         else (dn, ''''))"

subsection \<open>\<open>validate_attribute_type\<close>\<close>

definition validate_attribute_type :: "string \<Rightarrow> error + bool" where
  "validate_attribute_type attribute_type =
     (if attribute_type = [] then Inr False
      else case List.find (\<lambda>c. c \<notin> set type_chars) attribute_type of
          Some c \<Rightarrow> Inl (LDAPInvalidDnError (''character '' @ [c] @ '' not allowed in Attribute Type''))
        | None \<Rightarrow>
            if hd attribute_type \<in> set type_first_refused then
              Inl (LDAPInvalidDnError (''character '' @ [hd attribute_type]
                     @ '' not allowed as first character of Attribute Type''))
            else Inr True)"

subsection \<open>\<open>validate_attribute_value\<close>\<close>

text \<open>One iteration of the validator's loop over the characters.\<close>

fun validate_step :: "state \<Rightarrow> char \<Rightarrow> error + state" where
  "validate_step STATE_ANY c =
     (if c = backslash then Inr STATE_ESCAPE
      else if c \<in> set special_chars then
        Inl (LDAPInvalidDnError (''special characters '' @ [c] @ '' must be escaped''))
      else Inr STATE_ANY)"
| "validate_step STATE_ESCAPE c =
     (if c \<in> set hexdigits then Inr STATE_ESCAPE_HEX
      else if c \<in> set escapable_chars then Inr STATE_ANY
      else Inl (LDAPInvalidDnError (''invalid escaped character '' @ [c])))"
| "validate_step STATE_ESCAPE_HEX c =
     (if c \<in> set hexdigits then Inr STATE_ANY
      else Inl (LDAPInvalidDnError (''invalid escaped character '' @ [c])))"

fun validate_loop :: "state \<Rightarrow> string \<Rightarrow> error + state" where
  "validate_loop st [] = Inr st"
| "validate_loop st (c # cs) =
     (case validate_step st c of
        Inl e \<Rightarrow> Inl e
      | Inr st' \<Rightarrow> validate_loop st' cs)"

text \<open>
  The loop over a value that starts with \<open>#\<close>: the source tests the one-character literal
  \<open>'c'\<close>, not the loop variable \<open>c\<close>, against \<open>hexdigits\<close>.
\<close>

definition hex_check :: "string \<Rightarrow> char option" where
  "hex_check attribute_value = List.find (\<lambda>c. CHR ''c'' \<notin> set hexdigits) attribute_value"

definition validate_attribute_value :: "string \<Rightarrow> error + bool" where
  "validate_attribute_value attribute_value =
     (if attribute_value = [] then Inr False
      else case (if hd attribute_value = CHR ''#'' then
                   (case hex_check attribute_value of
                      Some c \<Rightarrow> Some (LDAPInvalidDnError (''character '' @ [c]
                                  @ '' not allowed in hex representation of Attribute_Value''))
                    | None \<Rightarrow>
                        if length attribute_value mod 2 = 0 then
                          Some (LDAPInvalidDnError
                                  ''hex representation must be in the form of <HEX><HEX> pairs'')
                        else None)
                 else None) of
          Some e \<Rightarrow> Inl e
        | None \<Rightarrow>
            if hd attribute_value = CHR '' '' then
              Inl (LDAPInvalidDnError ''SPACE not allowed as first character of Attribute Value'')
            else if last attribute_value = CHR '' '' then
              Inl (LDAPInvalidDnError ''SPACE not allowed as last character of Attribute Value'')
            else
              (case validate_loop STATE_ANY attribute_value of
                 Inl e \<Rightarrow> Inl e
               | Inr st \<Rightarrow>
                   if st \<noteq> STATE_ANY then Inl (LDAPInvalidDnError ''invalid final character'')
                   else Inr True))"

subsection \<open>\<open>escape_attribute_value\<close>\<close>

text \<open>
  One iteration of the escaper's loop; the loop state is \<open>(state, escaped, buffer)\<close>.
  The last branch of \<open>STATE_ESCAPE\<close> assigns neither \<open>state\<close> nor \<open>buffer\<close>.
\<close>

fun escape_step :: "state \<times> string \<times> string \<Rightarrow> char \<Rightarrow> state \<times> string \<times> string" where
  "escape_step (STATE_ANY, escaped, buffer) c =
     (if c = backslash then (STATE_ESCAPE, escaped, buffer)
      else if c \<in> set special_chars then (STATE_ANY, escaped @ [backslash, c], buffer)
      else (STATE_ANY, escaped @ [c], buffer))"
| "escape_step (STATE_ESCAPE, escaped, buffer) c =
     (if c \<in> set hexdigits then (STATE_ESCAPE_HEX, escaped, [c])
      else if c \<in> set escapable_chars then (STATE_ANY, escaped @ [backslash, c], buffer)
      else (STATE_ESCAPE, escaped @ [backslash, backslash, c], buffer))"
| "escape_step (STATE_ESCAPE_HEX, escaped, buffer) c =
     (if c \<in> set hexdigits then (STATE_ANY, escaped @ [backslash] @ buffer @ [c], [])
      else (STATE_ANY, escaped @ [backslash, backslash] @ buffer @ [c], []))"

definition escape_loop :: "string \<Rightarrow> state \<times> string \<times> string" where
  "escape_loop attribute_value = foldl escape_step (STATE_ANY, [], []) attribute_value"

text \<open>The flag \<open>valid\<close> computed for a value that starts with \<open>#\<close>.\<close>

definition hex_valid :: "string \<Rightarrow> bool" where
  "hex_valid attribute_value =
     (if length attribute_value mod 2 = 0 then False
      else hex_check attribute_value = None)"

text \<open>The statements after the loop: the final state, then the leading and trailing SPACE.\<close>

definition escape_final :: "state \<times> string \<times> string \<Rightarrow> string" where
  "escape_final r =
     (case r of (st, escaped, buffer) \<Rightarrow>
        if st = STATE_ESCAPE then escaped @ [backslash, backslash]
        else if st = STATE_ESCAPE_HEX then escaped @ [backslash, backslash] @ buffer
        else escaped)"

definition escape_spaces :: "string \<Rightarrow> error + string" where
  "escape_spaces escaped0 =
     (case getitem escaped0 0 of
        Inl e \<Rightarrow> Inl e
      | Inr c0 \<Rightarrow>
          let escaped = (if c0 = CHR '' '' then backslash # escaped0 else escaped0)
          in (case getitem escaped (- 1) of
                Inl e \<Rightarrow> Inl e
              | Inr c1 \<Rightarrow>
                  if c1 = CHR '' '' \<and> length escaped > 1 then
                    (case getitem escaped (- 2) of
                       Inl e \<Rightarrow> Inl e
                     | Inr c2 \<Rightarrow>
                         if c2 \<noteq> backslash then Inr (slice escaped 0 (- 1) @ [backslash, CHR '' ''])
                         else Inr escaped)
                  else Inr escaped))"

definition escape_attribute_value :: "string \<Rightarrow> error + string" where
  "escape_attribute_value attribute_value =
     (if attribute_value = [] then Inr []
      else if hd attribute_value = CHR ''#'' \<and> hex_valid attribute_value then Inr attribute_value
      else escape_spaces (escape_final (escape_loop attribute_value)))"

subsection \<open>\<open>split_ava\<close>\<close>

text \<open>The value returned at a split point, escaped when \<open>escape\<close> is set.\<close>

definition split_at :: "string \<Rightarrow> bool \<Rightarrow> bool \<Rightarrow> int \<Rightarrow> error + string \<times> pyval" where
  "split_at ava escape strp equal =
     (let attribute_type = (if strp then strip (slice ava 0 equal) else slice ava 0 equal);
          raw = (if strp then strip (slice ava (equal + 1) (int (length ava)))
                 else slice ava (equal + 1) (int (length ava)))
      in if escape then
           (case escape_attribute_value raw of
              Inl e \<Rightarrow> Inl e
            | Inr attribute_value \<Rightarrow> Inr (attribute_type, PyStr attribute_value))
         else Inr (attribute_type, PyStr raw))"

function split_ava_loop :: "string \<Rightarrow> bool \<Rightarrow> bool \<Rightarrow> int \<Rightarrow> error + string \<times> pyval" where
  "split_ava_loop ava escape strp equal =
     (if equal > 0 then
        (case getitem ava (equal - 1) of
           Inl e \<Rightarrow> Inl e
         | Inr c \<Rightarrow>
             if c \<noteq> backslash then split_at ava escape strp equal
             else split_ava_loop ava escape strp (str_rfind_range ava (CHR ''='') 0 equal))
      else Inr ([], if strp then PyStripMethod ava else PyStr ava))"
  by pat_completeness auto

lemma slice_from_0: "0 \<le> b \<Longrightarrow> slice s 0 b = take (nat b) s"
  by (simp add: slice_def clip_def min_def)

lemma str_rfind_less_length: "str_rfind s c < int (length s)"
  by (simp add: str_rfind_def)

lemma str_rfind_range_less: "0 < b \<Longrightarrow> str_rfind_range s c 0 b < b"
proof -
  assume b: "0 < b"
  have "str_rfind (take (nat b) s) c < int (length (take (nat b) s))"
    by (rule str_rfind_less_length)
  also have "\<dots> \<le> b" using b by simp
  finally show ?thesis using b
    by (simp add: str_rfind_range_def slice_from_0 clip_def)
qed

termination split_ava_loop
  by (relation "measure (\<lambda>(ava, escape, strp, equal). nat equal)")
     (auto simp: str_rfind_range_less)

declare split_ava_loop.simps [simp del]

definition split_ava :: "string \<Rightarrow> bool \<Rightarrow> bool \<Rightarrow> error + string \<times> pyval" where
  "split_ava ava escape strp = split_ava_loop ava escape strp (str_rfind ava (CHR ''=''))"

subsection \<open>\<open>parse_dn\<close> and \<open>safe_dn\<close>\<close>

type_synonym ava = "string \<times> string \<times> string"

text \<open>
  \<open>validate_attribute_value\<close> on what \<open>split_ava\<close> returned: subscripting the method object
  raises \<open>TypeError\<close>.
\<close>

definition validate_pyval :: "pyval \<Rightarrow> error + bool" where
  "validate_pyval x =
     (case x of
        PyStr attribute_value \<Rightarrow> validate_attribute_value attribute_value
      | PyStripMethod _ \<Rightarrow> Inl TypeError)"

text \<open>
  The body of the \<open>while\<close> loop: \<open>Inr None\<close> when \<open>done\<close> is set, and otherwise the triple
  appended to \<open>rdns\<close> with the new value of \<open>dn\<close>.
\<close>

definition parse_dn_step :: "string \<Rightarrow> bool \<Rightarrow> bool \<Rightarrow> error + (ava \<times> string) option" where
  "parse_dn_step dn escape strp =
     (case get_next_ava dn of (ava, separator) \<Rightarrow>
        if ava \<noteq> [] then
          (case split_ava ava escape strp of
             Inl e \<Rightarrow> Inl e
           | Inr (attribute_type, attribute_value) \<Rightarrow>
               (case validate_attribute_type attribute_type of
                  Inl e \<Rightarrow> Inl e
                | Inr False \<Rightarrow>
                    Inl (LDAPInvalidDnError (''unable to validate attribute type: '' @ attribute_type))
                | Inr True \<Rightarrow>
                    (case validate_pyval attribute_value of
                       Inl e \<Rightarrow> Inl e
                     | Inr ok \<Rightarrow>
                         (case attribute_value of
                            PyStripMethod _ \<Rightarrow> Inl TypeError
                          | PyStr v \<Rightarrow>
                              if \<not> ok then
                                Inl (LDAPInvalidDnError (''unable to validate attribute value: '' @ v))
                              else
                                Inr (Some ((attribute_type, v, separator),
                                           slice dn (int (length ava) + 1) (int (length dn))))))))
        else Inr None)"

lemma slice_to_end: "0 \<le> a \<Longrightarrow> slice s a (int (length s)) = drop (nat a) s"
  by (simp add: slice_def clip_def min_def)

lemma get_next_ava_empty: "get_next_ava [] = ([], [])"
  by (simp add: get_next_ava_def str_find_def)

lemma parse_dn_step_shrinks:
  "parse_dn_step dn escape strp = Inr (Some (t, dn')) \<Longrightarrow> length dn' < length dn"
proof -
  assume a: "parse_dn_step dn escape strp = Inr (Some (t, dn'))"
  obtain ava sep where g: "get_next_ava dn = (ava, sep)" by (cases "get_next_ava dn")
  from a g have ne: "ava \<noteq> []"
    by (auto simp: parse_dn_step_def split: if_splits)
  with g have dne: "dn \<noteq> []" using get_next_ava_empty by auto
  from a g ne have "dn' = slice dn (int (length ava) + 1) (int (length dn))"
    by (auto simp: parse_dn_step_def split: sum.splits bool.splits pyval.splits if_splits prod.splits)
  then have "dn' = drop (Suc (length ava)) dn"
    by (simp add: slice_to_end nat_add_distrib)
  with dne show ?thesis by simp
qed

function parse_dn_loop :: "string \<Rightarrow> bool \<Rightarrow> bool \<Rightarrow> ava list \<Rightarrow> error + ava list" where
  "parse_dn_loop dn escape strp rdns =
     (case parse_dn_step dn escape strp of
        Inl e \<Rightarrow> Inl e
      | Inr None \<Rightarrow> Inr rdns
      | Inr (Some (rdn, dn')) \<Rightarrow> parse_dn_loop dn' escape strp (rdns @ [rdn]))"
  by pat_completeness auto
termination
  by (relation "measure (\<lambda>(dn, escape, strp, rdns). length dn)")
     (auto simp: parse_dn_step_shrinks)

declare parse_dn_loop.simps [simp del]

definition parse_dn :: "string \<Rightarrow> bool \<Rightarrow> bool \<Rightarrow> error + ava list" where
  "parse_dn dn escape strp = parse_dn_loop dn escape strp []"

text \<open>The loop of \<open>safe_dn\<close> over the parsed triples.\<close>

definition join_rdns :: "ava list \<Rightarrow> string" where
  "join_rdns rdns = foldl (\<lambda>acc rdn. case rdn of (t, v, s) \<Rightarrow> acc @ t @ ''='' @ v @ s) [] rdns"

definition safe_dn :: "string \<Rightarrow> error + string" where
  "safe_dn dn =
     (case parse_dn dn True True of
        Inl e \<Rightarrow> Inl e
      | Inr rdns \<Rightarrow> Inr (join_rdns rdns))"

subsection \<open>Auxiliary definitions for the proofs\<close>

text \<open>
  The \<open>while\<close> loop of \<open>parse_dn\<close> run for at most \<open>n\<close> iterations: \<open>None\<close> when the
  budget is used up before the loop ends.
\<close>

primrec parse_dn_fuel ::
  "nat \<Rightarrow> string \<Rightarrow> bool \<Rightarrow> bool \<Rightarrow> ava list \<Rightarrow> (error + ava list) option" where
  "parse_dn_fuel 0 dn escape strp rdns = None"
| "parse_dn_fuel (Suc n) dn escape strp rdns =
     (case parse_dn_step dn escape strp of
        Inl e \<Rightarrow> Some (Inl e)
      | Inr None \<Rightarrow> Some (Inr rdns)
      | Inr (Some (rdn, dn')) \<Rightarrow> parse_dn_fuel n dn' escape strp (rdns @ [rdn]))"

text \<open>The third component \<open>rdn[2]\<close> of a parsed triple.\<close>

definition separator :: "ava \<Rightarrow> string" where
  "separator rdn = snd (snd rdn)"

text \<open>
  \<open>validate_attribute_value(escape_attribute_value(v))\<close>: the exception of the escaper, if
  any, propagates.
\<close>

definition validate_escaped :: "string \<Rightarrow> error + bool" where
  "validate_escaped v =
     (case escape_attribute_value v of
        Inl e \<Rightarrow> Inl e
      | Inr escaped \<Rightarrow> validate_attribute_value escaped)"

text \<open>
  The invariant of the escaper's loop after at least one character: in \<open>STATE_ANY\<close>
  something has been emitted.
\<close>

definition buffer_inv :: "state \<times> string \<times> string \<Rightarrow> bool" where
  "buffer_inv r = (case r of (st, escaped, buffer) \<Rightarrow> st = STATE_ANY \<longrightarrow> escaped \<noteq> [])"

text \<open>The three characters the tokenizer looks for.\<close>

abbreviation comma :: char where
  "comma \<equiv> CHR '',''"

abbreviation plus_sign :: char where
  "plus_sign \<equiv> CHR ''+''"

abbreviation equal_sign :: char where
  "equal_sign \<equiv> CHR ''=''"

text \<open>
  The characters the escaper has read but not yet emitted: the backslash in
  \<open>STATE_ESCAPE\<close>, the backslash and the buffered digit in \<open>STATE_ESCAPE_HEX\<close>.
\<close>

fun pending :: "state \<Rightarrow> string \<Rightarrow> string" where
  "pending STATE_ANY buffer = []"
| "pending STATE_ESCAPE buffer = [backslash]"
| "pending STATE_ESCAPE_HEX buffer = backslash # buffer"

text \<open>
  The triples that \<open>parse_dn\<close> returns on an accepted DN: type and value are valid, the
  value is stripped and holds no comma; with separator \<open>,\<close> no \<open>=\<close> follows the first \<open>+\<close> of
  the value, with separator \<open>+\<close> the value holds no \<open>+\<close> and a comma follows later, and an
  empty separator ends the list.
\<close>

fun canonical :: "ava list \<Rightarrow> bool" where
  "canonical [] = True"
| "canonical ((t, v, s) # ts) =
     (validate_attribute_type t = Inr True \<and> validate_attribute_value v = Inr True
      \<and> strip v = v \<and> comma \<notin> set v
      \<and> (if s = [] then ts = []
         else if s = '','' then equal_sign \<notin> set (dropWhile (\<lambda>c. c \<noteq> plus_sign) v)
         else s = ''+'' \<and> plus_sign \<notin> set v \<and> comma \<in> set (join_rdns ts))
      \<and> canonical ts)"

text \<open>A string without its backslashes.\<close>

abbreviation unescaped :: "string \<Rightarrow> string" where
  "unescaped s \<equiv> filter (\<lambda>c. c \<noteq> backslash) s"

text \<open>The digit held in \<open>buffer\<close>, which the escaper emits later; only in \<open>STATE_ESCAPE_HEX\<close>.\<close>

fun buffered :: "state \<Rightarrow> string \<Rightarrow> string" where
  "buffered STATE_ESCAPE_HEX buffer = buffer"
| "buffered st buffer = []"


section \<open>Properties\<close>

subsection \<open>Indexing\<close>

lemma getitem_first: "s \<noteq> [] \<Longrightarrow> getitem s 0 = Inr (hd s)"
  by (cases s) (simp_all add: getitem_def)

lemma getitem_last: "s \<noteq> [] \<Longrightarrow> getitem s (- 1) = Inr (last s)"
  by (simp add: getitem_def last_conv_nth nat_diff_distrib' Suc_leI)

lemma getitem_before_last:
  "1 < length s \<Longrightarrow> getitem s (- 2) = Inr (s ! (length s - 2))"
  by (simp add: getitem_def nat_diff_distrib')

subsection \<open>The escaper never reads an empty buffer\<close>

lemma escape_step_buffer_inv: "buffer_inv (escape_step r c)"
proof -
  obtain st escaped buffer where r: "r = (st, escaped, buffer)" by (cases r)
  show ?thesis unfolding r by (cases st) (simp_all add: buffer_inv_def)
qed

lemma foldl_escape_step_buffer_inv:
  "buffer_inv r \<Longrightarrow> buffer_inv (foldl escape_step r cs)"
  by (induction cs arbitrary: r) (simp_all add: escape_step_buffer_inv)

lemma escape_loop_buffer_inv: "v \<noteq> [] \<Longrightarrow> buffer_inv (escape_loop v)"
proof -
  assume "v \<noteq> []"
  then obtain c cs where v: "v = c # cs" by (cases v) auto
  have "escape_loop v = foldl escape_step (escape_step (STATE_ANY, [], []) c) cs"
    unfolding v escape_loop_def by (rule foldl_Cons)
  then show ?thesis
    by (simp only: foldl_escape_step_buffer_inv escape_step_buffer_inv)
qed

lemma escape_final_nonempty: "buffer_inv r \<Longrightarrow> escape_final r \<noteq> []"
proof -
  assume a: "buffer_inv r"
  obtain st escaped buffer where r: "r = (st, escaped, buffer)" by (cases r)
  from a show ?thesis unfolding r by (cases st) (simp_all add: buffer_inv_def escape_final_def)
qed

lemma escape_spaces_returns: "e \<noteq> [] \<Longrightarrow> \<exists>s. escape_spaces e = Inr s"
  by (simp add: escape_spaces_def getitem_first getitem_last getitem_before_last Let_def)

subsection \<open>Special characters and the two SPACE statements\<close>

lemma special_not_hex: "c \<in> set special_chars \<Longrightarrow> c \<notin> set hexdigits"
  by (auto simp: special_chars_def hexdigits_def)


lemma escape_spaces_no_trailing_space:
  "e \<noteq> [] \<Longrightarrow> last e \<noteq> CHR '' '' \<Longrightarrow>
   escape_spaces e = Inr (if hd e = CHR '' '' then backslash # e else e)"
  by (simp add: escape_spaces_def getitem_first getitem_last Let_def)

subsection \<open>The validators' errors\<close>

lemma validate_step_error: "validate_step st c = Inl e \<Longrightarrow> \<exists>m. e = LDAPInvalidDnError m"
  by (cases st) (auto split: if_splits)

lemma validate_loop_error: "validate_loop st cs = Inl e \<Longrightarrow> \<exists>m. e = LDAPInvalidDnError m"
  by (induction cs arbitrary: st) (auto split: sum.splits dest: validate_step_error)

lemma validate_attribute_type_cases:
  "validate_attribute_type s = Inr False \<and> s = []
   \<or> s \<noteq> [] \<and> (validate_attribute_type s = Inr True
                \<or> (\<exists>m. validate_attribute_type s = Inl (LDAPInvalidDnError m)))"
  by (simp add: validate_attribute_type_def split: option.splits)

lemma validate_attribute_value_cases:
  "validate_attribute_value s = Inr False \<and> s = []
   \<or> s \<noteq> [] \<and> (validate_attribute_value s = Inr True
                \<or> (\<exists>m. validate_attribute_value s = Inl (LDAPInvalidDnError m)))"
proof (cases "s = []")
  case True
  then show ?thesis by (simp add: validate_attribute_value_def)
next
  case False
  then show ?thesis
    by (auto simp: validate_attribute_value_def split: option.splits sum.splits
          dest: validate_loop_error)
qed

subsection \<open>The loop of \<open>parse_dn\<close>\<close>

lemma parse_dn_fuel_enough:
  "length dn < n \<Longrightarrow>
   parse_dn_fuel n dn escape strp rdns = Some (parse_dn_loop dn escape strp rdns)"
proof (induction n arbitrary: dn rdns)
  case 0
  then show ?case by simp
next
  case (Suc n)
  show ?case
  proof (cases "parse_dn_step dn escape strp")
    case (Inl e)
    then show ?thesis by (simp add: parse_dn_loop.simps [of dn])
  next
    case (Inr r)
    show ?thesis
    proof (cases r)
      case None
      with Inr show ?thesis by (simp add: parse_dn_loop.simps [of dn])
    next
      case (Some p)
      obtain rdn dn' where p: "p = (rdn, dn')" by (cases p)
      from Inr Some p have "length dn' < length dn"
        using parse_dn_step_shrinks by blast
      with Suc.prems have "length dn' < n" by simp
      then have "parse_dn_fuel n dn' escape strp (rdns @ [rdn])
                 = Some (parse_dn_loop dn' escape strp (rdns @ [rdn]))"
        by (rule Suc.IH)
      with Inr Some p show ?thesis by (simp add: parse_dn_loop.simps [of dn])
    qed
  qed
qed

lemma parse_dn_step_done:
  "parse_dn_step dn escape strp = Inr None \<longleftrightarrow> fst (get_next_ava dn) = []"
  by (auto simp: parse_dn_step_def split: prod.splits sum.splits bool.splits pyval.splits)

lemma get_next_ava_separator:
  "get_next_ava dn = (ava, sep) \<Longrightarrow>
   sep \<in> {'','', ''+'', []} \<and> (sep = [] \<longrightarrow> ava = dn)"
  by (auto simp: get_next_ava_def Let_def split: if_splits)

lemma parse_dn_step_separator:
  assumes "parse_dn_step dn escape strp = Inr (Some (rdn, dn'))"
  shows "separator rdn \<in> {'','', ''+'', []} \<and> (separator rdn = [] \<longrightarrow> dn' = [])"
proof -
  obtain ava sep where g: "get_next_ava dn = (ava, sep)" by (cases "get_next_ava dn")
  from assms g have r: "separator rdn = sep"
      and d: "dn' = slice dn (int (length ava) + 1) (int (length dn))"
    by (auto simp: parse_dn_step_def separator_def
          split: sum.splits bool.splits pyval.splits if_splits prod.splits)
  from d have "ava = dn \<Longrightarrow> dn' = []" by (simp add: slice_to_end)
  with get_next_ava_separator [OF g] r show ?thesis by auto
qed

lemma parse_dn_loop_nil: "parse_dn_loop [] escape strp rdns = Inr rdns"
  by (simp add: parse_dn_loop.simps [of "[]"] parse_dn_step_def get_next_ava_empty)

lemma parse_dn_loop_separators:
  "parse_dn_loop dn escape strp acc = Inr res \<Longrightarrow>
   \<exists>ts. res = acc @ ts
     \<and> (\<forall>rdn \<in> set ts. separator rdn \<in> {'','', ''+'', []})
     \<and> (\<forall>rdn \<in> set (butlast ts). separator rdn \<in> {'','', ''+''})"
proof (induction dn escape strp acc rule: parse_dn_loop.induct)
  case (1 dn escape strp rdns)
  show ?case
  proof (cases "parse_dn_step dn escape strp")
    case (Inl e)
    with "1.prems" show ?thesis by (simp add: parse_dn_loop.simps [of dn])
  next
    case (Inr r)
    show ?thesis
    proof (cases r)
      case None
      with Inr "1.prems" show ?thesis by (simp add: parse_dn_loop.simps [of dn])
    next
      case (Some p)
      obtain rdn dn' where p: "p = (rdn, dn')" by (cases p)
      from Inr Some p have step: "parse_dn_step dn escape strp = Inr (Some (rdn, dn'))" by simp
      with "1.prems" have rec: "parse_dn_loop dn' escape strp (rdns @ [rdn]) = Inr res"
        by (simp add: parse_dn_loop.simps [of dn])
      from "1.IH" [OF step refl refl rec] obtain ts where
        ts: "res = (rdns @ [rdn]) @ ts"
          "\<forall>x \<in> set ts. separator x \<in> {'','', ''+'', []}"
          "\<forall>x \<in> set (butlast ts). separator x \<in> {'','', ''+''}"
        by blast
      note sep = parse_dn_step_separator [OF step]
      have last_only: "separator rdn = [] \<Longrightarrow> ts = []"
      proof -
        assume "separator rdn = []"
        with sep have "dn' = []" by simp
        with rec have "rdns @ [rdn] = res" by (simp add: parse_dn_loop_nil)
        with ts(1) show "ts = []" by simp
      qed
      have "res = rdns @ (rdn # ts)" using ts(1) by simp
      moreover have "\<forall>x \<in> set (rdn # ts). separator x \<in> {'','', ''+'', []}"
        using sep ts(2) by simp
      moreover have "\<forall>x \<in> set (butlast (rdn # ts)). separator x \<in> {'','', ''+''}"
        using sep ts(3) last_only by auto
      ultimately show ?thesis by blast
    qed
  qed
qed

section \<open>The round trip of \<open>safe_dn\<close>\<close>

subsection \<open>\<open>find\<close> and slices\<close>

lemma str_find_absent: "c \<notin> set s \<Longrightarrow> str_find s c = - 1"
  by (simp add: str_find_def)

lemma takeWhile_neq_first: "c \<notin> set p \<Longrightarrow> takeWhile (\<lambda>x. x \<noteq> c) (p @ c # r) = p"
  by (subst takeWhile_append2) auto

lemma str_find_first: "c \<notin> set p \<Longrightarrow> str_find (p @ c # r) c = int (length p)"
  by (simp add: str_find_def takeWhile_neq_first)

lemma str_find_nonneg_iff: "0 \<le> str_find s c \<longleftrightarrow> c \<in> set s"
  by (simp add: str_find_def)

lemma str_find_split:
  "c \<in> set s \<Longrightarrow> \<exists>p r. s = p @ c # r \<and> c \<notin> set p \<and> str_find s c = int (length p)"
proof -
  assume "c \<in> set s"
  then obtain p r where "s = p @ c # r" "c \<notin> set p"
    by (meson split_list_first)
  then show ?thesis using str_find_first by blast
qed

lemma slice_prefix: "slice (a @ r) 0 (int (length a)) = a"
  by (simp add: slice_from_0)

lemma slice_middle:
  "slice (p @ m @ r) (int (length p)) (int (length p + length m)) = m"
  by (simp add: slice_def clip_def)

lemma slice_suffix: "slice (a @ r) (int (length a)) (int (length (a @ r))) = r"
  using slice_to_end [of "int (length a)" "a @ r"] by simp

subsection \<open>\<open>rfind\<close>\<close>

lemma str_rfind_absent: "c \<notin> set s \<Longrightarrow> str_rfind s c = - 1"
  by (simp add: str_rfind_def)

lemma str_rfind_last: "c \<notin> set r \<Longrightarrow> str_rfind (p @ c # r) c = int (length p)"
proof -
  assume "c \<notin> set r"
  then have "takeWhile (\<lambda>x. x \<noteq> c) (rev r @ c # rev p) = rev r"
    by (simp add: takeWhile_neq_first)
  then show ?thesis by (simp add: str_rfind_def)
qed

lemma str_rfind_split:
  "c \<in> set s \<Longrightarrow> \<exists>p r. s = p @ c # r \<and> c \<notin> set r \<and> str_rfind s c = int (length p)"
proof -
  assume "c \<in> set s"
  then obtain p r where "s = p @ c # r" "c \<notin> set r"
    by (meson split_list_last)
  then show ?thesis using str_rfind_last by blast
qed

lemma str_rfind_range_take:
  "0 < e \<Longrightarrow> str_rfind_range s c 0 e = str_rfind (take (nat e) s) c"
  by (simp add: str_rfind_range_def slice_from_0 clip_def str_rfind_absent)

subsection \<open>\<open>strip\<close>\<close>

lemma set_strip: "set (strip s) \<subseteq> set s"
proof -
  have "set (strip s) \<subseteq> set (dropWhile isspace s)"
    unfolding strip_def using set_dropWhileD by fastforce
  also have "\<dots> \<subseteq> set s" using set_dropWhileD by fastforce
  finally show ?thesis .
qed

lemma strip_id: "s \<noteq> [] \<Longrightarrow> \<not> isspace (hd s) \<Longrightarrow> \<not> isspace (last s) \<Longrightarrow> strip s = s"
proof -
  assume a: "s \<noteq> []" "\<not> isspace (hd s)" "\<not> isspace (last s)"
  then have 1: "dropWhile isspace s = s" by (simp add: dropWhile_eq_self_iff)
  from a have "hd (rev s) = last s" by (simp add: hd_rev)
  with a have 2: "dropWhile isspace (rev s) = rev s" by (simp add: dropWhile_eq_self_iff)
  show ?thesis by (simp add: strip_def 1 2)
qed

lemma strip_decompose:
  "\<exists>l r. s = l @ strip s @ r \<and> (\<forall>c \<in> set l. isspace c) \<and> (\<forall>c \<in> set r. isspace c)"
proof -
  let ?l = "takeWhile isspace s"
  let ?m = "dropWhile isspace s"
  let ?r = "rev (takeWhile isspace (rev ?m))"
  have "rev (rev ?m) = rev (takeWhile isspace (rev ?m) @ dropWhile isspace (rev ?m))"
    by (simp only: takeWhile_dropWhile_id)
  then have m: "?m = strip s @ ?r"
    by (simp only: rev_rev_ident rev_append strip_def)
  have "s = ?l @ ?m" by simp
  with m have "s = ?l @ strip s @ ?r" by simp
  moreover have "\<forall>c \<in> set ?l. isspace c" by (meson set_takeWhileD)
  moreover have "\<forall>c \<in> set ?r. isspace c" by (metis set_rev set_takeWhileD)
  ultimately show ?thesis by blast
qed

lemma strip_ends:
  "strip s \<noteq> [] \<Longrightarrow> \<not> isspace (hd (strip s)) \<and> \<not> isspace (last (strip s))"
proof -
  assume ne: "strip s \<noteq> []"
  let ?m = "dropWhile isspace s"
  let ?d = "dropWhile isspace (rev ?m)"
  from ne have dne: "?d \<noteq> []" by (simp add: strip_def)
  then have l: "\<not> isspace (hd ?d)" by (rule hd_dropWhile)
  have mne: "?m \<noteq> []"
  proof
    assume "?m = []"
    then have "?d = dropWhile isspace (rev [])" by (simp only:)
    with dne show False by simp
  qed
  then have h: "\<not> isspace (hd ?m)" by (rule hd_dropWhile)
  obtain r where m: "?m = strip s @ r"
    by (metis (no_types) rev_append rev_rev_ident strip_def takeWhile_dropWhile_id)
  with ne have "hd (strip s) = hd ?m" by simp
  moreover have "last (strip s) = hd ?d" using dne by (simp add: strip_def last_rev)
  ultimately show ?thesis using l h by simp
qed

lemma strip_idem: "strip (strip s) = strip s"
proof (cases "strip s = []")
  case True
  have "strip [] = []" by (simp add: strip_def)
  with True show ?thesis by (simp only:)
next
  case False
  with strip_ends [OF False] show ?thesis by (simp add: strip_id)
qed

lemma type_char_not_space: "c \<in> set type_chars \<Longrightarrow> \<not> isspace c"
  by (auto simp: type_chars_def isspace_def)

subsection \<open>Where \<open>get_next_ava\<close> cuts\<close>

lemma str_find_append:
  "c \<notin> set a \<Longrightarrow>
   str_find (a @ r) c = (if c \<in> set r then int (length a) + str_find r c else - 1)"
proof -
  assume "c \<notin> set a"
  then have "takeWhile (\<lambda>x. x \<noteq> c) (a @ r) = a @ takeWhile (\<lambda>x. x \<noteq> c) r"
    by (subst takeWhile_append2) auto
  with \<open>c \<notin> set a\<close> show ?thesis by (simp add: str_find_def)
qed

lemma str_find_range_middle:
  "str_find_range (p @ m @ r) c (int (length p)) (int (length p + length m))
   = (if c \<in> set m then int (length p) + str_find m c else - 1)"
  unfolding str_find_range_def slice_middle by (simp add: clip_def)

lemma get_next_ava_no_comma: "comma \<notin> set a \<Longrightarrow> get_next_ava a = (a, [])"
  by (simp add: get_next_ava_def Let_def str_find_absent)

lemma get_next_ava_leading_comma: "get_next_ava (comma # r) = (comma # r, [])"
  using str_find_first [of comma "[]" r]
  by (simp add: get_next_ava_def Let_def)

lemma get_next_ava_comma:
  assumes "a \<noteq> []" and "comma \<notin> set a" and "plus_sign \<notin> set a"
  shows "get_next_ava (a @ comma # r) = (a, '','')"
proof -
  have c: "str_find (a @ comma # r) comma = int (length a)"
    using assms(2) by (rule str_find_first)
  have f: "str_find (a @ comma # r) plus_sign
        = (if plus_sign \<in> set (comma # r) then int (length a) + str_find (comma # r) plus_sign
           else - 1)"
    using assms(3) by (rule str_find_append)
  have p: "\<not> (0 < str_find (a @ comma # r) plus_sign
             \<and> str_find (a @ comma # r) plus_sign < int (length a))"
  proof (cases "plus_sign \<in> set (comma # r)")
    case True
    then have "0 \<le> str_find (comma # r) plus_sign"
      by (simp only: str_find_nonneg_iff)
    moreover from True f
    have "str_find (a @ comma # r) plus_sign = int (length a) + str_find (comma # r) plus_sign"
      by (simp only: if_True)
    ultimately show ?thesis by linarith
  next
    case False
    with f have "str_find (a @ comma # r) plus_sign = - 1" by (simp only: if_False)
    then show ?thesis by linarith
  qed
  from assms(1) have "0 < int (length a)" by simp
  with c p show ?thesis
    by (simp add: get_next_ava_def Let_def slice_prefix)
qed

lemma get_next_ava_leading_plus:
  assumes "comma \<notin> set x"
  shows "get_next_ava ((plus_sign # x) @ comma # r) = (plus_sign # x, '','')"
proof -
  have c: "str_find ((plus_sign # x) @ comma # r) comma = int (length (plus_sign # x))"
    using assms by (intro str_find_first) simp
  have p: "str_find ((plus_sign # x) @ comma # r) plus_sign = 0"
    using str_find_first [of plus_sign "[]" "x @ comma # r"] by simp
  show ?thesis
    unfolding get_next_ava_def Let_def c p using slice_prefix [of "plus_sign # x" "comma # r"]
    by simp
qed

lemma get_next_ava_plus_inside:
  assumes "pp \<noteq> []" and "plus_sign \<notin> set pp" and "comma \<notin> set pp" and "comma \<notin> set rp"
  shows "get_next_ava (pp @ plus_sign # rp @ comma # r)
         = (if equal_sign \<in> set rp then (pp, ''+'') else (pp @ plus_sign # rp, '',''))"
proof -
  let ?dn = "pp @ plus_sign # rp @ comma # r"
  have "str_find ((pp @ plus_sign # rp) @ comma # r) comma = int (length (pp @ plus_sign # rp))"
    using assms(3,4) by (intro str_find_first) simp
  then have c: "str_find ?dn comma = int (length pp + length (plus_sign # rp))" by simp
  have p: "str_find ?dn plus_sign = int (length pp)"
    using assms(2) by (rule str_find_first)
  have "str_find_range (pp @ (plus_sign # rp) @ comma # r) equal_sign (int (length pp))
          (int (length pp + length (plus_sign # rp)))
        = (if equal_sign \<in> set (plus_sign # rp)
           then int (length pp) + str_find (plus_sign # rp) equal_sign else - 1)"
    by (rule str_find_range_middle)
  then have e: "str_find_range ?dn equal_sign (int (length pp))
          (int (length pp + length (plus_sign # rp)))
        = (if equal_sign \<in> set rp
           then int (length pp) + str_find (plus_sign # rp) equal_sign else - 1)"
    by simp
  have nonneg: "equal_sign \<in> set rp \<Longrightarrow> 0 \<le> str_find (plus_sign # rp) equal_sign"
    by (simp add: str_find_def)
  have s1: "slice ?dn 0 (int (length pp)) = pp" by (rule slice_prefix)
  have "slice ((pp @ plus_sign # rp) @ comma # r) 0 (int (length (pp @ plus_sign # rp)))
        = pp @ plus_sign # rp" by (rule slice_prefix)
  then have s2: "slice ?dn 0 (int (length pp + length (plus_sign # rp))) = pp @ plus_sign # rp"
    by simp
  from assms(1) have pos: "0 < int (length pp)" by simp
  have epos: "equal_sign \<in> set rp \<Longrightarrow> 0 < int (length pp) + str_find (plus_sign # rp) equal_sign"
    using pos nonneg by linarith
  show ?thesis
    unfolding get_next_ava_def Let_def c p e s1 s2
    using pos epos by simp
qed

lemma get_next_ava_cases:
  assumes "get_next_ava dn = (ava, sep)"
  obtains
    (final) "sep = []" and "ava = dn" and "comma \<notin> set dn \<or> (\<exists>r. dn = comma # r)"
  | (at_comma) rest where "sep = '',''" and "dn = ava @ comma # rest" and "ava \<noteq> []"
      and "comma \<notin> set ava"
      and "\<And>pp rp. ava = pp @ plus_sign # rp \<Longrightarrow> pp \<noteq> [] \<Longrightarrow> plus_sign \<notin> set pp
             \<Longrightarrow> equal_sign \<notin> set rp"
  | (at_plus) rest where "sep = ''+''" and "dn = ava @ plus_sign # rest" and "comma \<in> set rest"
      and "ava \<noteq> []" and "comma \<notin> set ava" and "plus_sign \<notin> set ava"
proof (cases "comma \<in> set dn")
  case False
  with assms have "sep = []" "ava = dn" by (simp_all add: get_next_ava_no_comma)
  then show thesis using False by (intro final) simp_all
next
  case True
  then obtain pc rc where dn: "dn = pc @ comma # rc" and pc: "comma \<notin> set pc"
    by (meson split_list_first)
  show thesis
  proof (cases "plus_sign \<in> set pc")
    case False
    show thesis
    proof (cases "pc = []")
      case True
      with dn have dn': "dn = comma # rc" by simp
      with assms have "sep = []" "ava = dn" by (simp_all add: get_next_ava_leading_comma)
      then show thesis using dn' by (intro final) simp_all
    next
      case ne: False
      from get_next_ava_comma [OF ne pc False, of rc] assms dn
      have r: "ava = pc" "sep = '',''" by simp_all
      show thesis
      proof (rule at_comma [of rc])
        show "sep = '',''" by (rule r)
        show "dn = ava @ comma # rc" using r dn by simp
        show "ava \<noteq> []" using r ne by simp
        show "comma \<notin> set ava" using r pc by simp
        show "equal_sign \<notin> set rp" if "ava = pp @ plus_sign # rp" for pp rp
          using that r False by simp
      qed
    qed
  next
    case True
    then obtain pp rp where pcs: "pc = pp @ plus_sign # rp" and pp: "plus_sign \<notin> set pp"
      by (meson split_list_first)
    from pc pcs have cpp: "comma \<notin> set pp" and crp: "comma \<notin> set rp" by simp_all
    show thesis
    proof (cases "pp = []")
      case True
      with pcs have pc': "pc = plus_sign # rp" by simp
      from get_next_ava_leading_plus [OF crp, of rc] assms dn pc'
      have r: "ava = pc" "sep = '',''" by simp_all
      show thesis
      proof (rule at_comma [of rc])
        show "sep = '',''" by (rule r)
        show "dn = ava @ comma # rc" using r dn by simp
        show "ava \<noteq> []" using r pc' by simp
        show "comma \<notin> set ava" using r pc by simp
        show "equal_sign \<notin> set rp'"
          if "ava = pp' @ plus_sign # rp'" "pp' \<noteq> []" "plus_sign \<notin> set pp'" for pp' rp'
        proof -
          from that(2) obtain x xs where "pp' = x # xs" by (cases pp') auto
          with that(1) r pc' have "x = plus_sign" by simp
          with \<open>pp' = x # xs\<close> that(3) show ?thesis by simp
        qed
      qed
    next
      case ne: False
      have g: "get_next_ava dn
               = (if equal_sign \<in> set rp then (pp, ''+'') else (pp @ plus_sign # rp, '',''))"
        using get_next_ava_plus_inside [OF ne pp cpp crp, of rc] dn pcs by simp
      show thesis
      proof (cases "equal_sign \<in> set rp")
        case True
        with g assms have r: "ava = pp" "sep = ''+''" by simp_all
        show thesis
        proof (rule at_plus [of "rp @ comma # rc"])
          show "sep = ''+''" by (rule r)
          show "dn = ava @ plus_sign # rp @ comma # rc" using r dn pcs by simp
          show "comma \<in> set (rp @ comma # rc)" by simp
          show "ava \<noteq> []" using r ne by simp
          show "comma \<notin> set ava" using r cpp by simp
          show "plus_sign \<notin> set ava" using r pp by simp
        qed
      next
        case False
        with g assms have r: "ava = pc" "sep = '',''" using pcs by simp_all
        show thesis
        proof (rule at_comma [of rc])
          show "sep = '',''" by (rule r)
          show "dn = ava @ comma # rc" using r dn by simp
          show "ava \<noteq> []" using r pcs by simp
          show "comma \<notin> set ava" using r pc by simp
          show "equal_sign \<notin> set rp'"
            if "ava = pp' @ plus_sign # rp'" "plus_sign \<notin> set pp'" for pp' rp'
          proof -
            from that(1) r pcs have "pp @ plus_sign # rp = pp' @ plus_sign # rp'" by simp
            with pp that(2) have "rp = rp'"
              by (simp add: append_eq_append_conv2 append_eq_Cons_conv Cons_eq_append_conv) auto
            with False show ?thesis by simp
          qed
        qed
      qed
    qed
  qed
qed

subsection \<open>rfind: where the result points\<close>

lemma str_rfind_cases:
  obtains (absent) "c \<notin> set s" and "str_rfind s c = - 1"
  | (found) p q where "s = p @ c # q" and "c \<notin> set q" and "str_rfind s c = int (length p)"
proof (cases "c \<in> set s")
  case False
  then show thesis by (intro absent) (simp_all add: str_rfind_absent)
next
  case True
  then obtain p q where "s = p @ c # q" "c \<notin> set q" by (meson split_list_last)
  then show thesis using str_rfind_last [of c q p] by (intro found) simp_all
qed

lemma str_rfind_is_last:
  assumes "i < length s" and "s ! i = c"
  shows "int i \<le> str_rfind s c \<and> str_rfind s c < int (length s)
         \<and> s ! nat (str_rfind s c) = c"
proof (cases rule: str_rfind_cases [of c s])
  case absent
  with assms show ?thesis using nth_mem by blast
next
  case (found p q)
  have "i \<le> length p"
  proof (rule ccontr)
    assume "\<not> i \<le> length p"
    then have gt: "length p < i" by simp
    with assms(1) found(1) have "i - length p - 1 < length q" by simp
    moreover from gt found(1) have "s ! i = q ! (i - length p - 1)"
      by (simp add: nth_append nth_Cons')
    ultimately have "s ! i \<in> set q" by simp
    with assms(2) found(2) show False by simp
  qed
  with found show ?thesis by simp
qed

lemma str_rfind_in_range:
  "str_rfind s c = - 1 \<or> (0 \<le> str_rfind s c \<and> str_rfind s c < int (length s)
                            \<and> s ! nat (str_rfind s c) = c)"
proof (cases rule: str_rfind_cases [of c s])
  case absent
  then show ?thesis by simp
next
  case (found p q)
  then show ?thesis by simp
qed

lemma str_rfind_take_in_range:
  assumes "0 < e" and "e \<le> int (length s)"
  shows "str_rfind_range s c 0 e = - 1
         \<or> (0 \<le> str_rfind_range s c 0 e \<and> str_rfind_range s c 0 e < e
            \<and> s ! nat (str_rfind_range s c 0 e) = c)"
proof -
  let ?r = "str_rfind (take (nat e) s) c"
  have eq: "str_rfind_range s c 0 e = ?r" using assms(1) by (rule str_rfind_range_take)
  from str_rfind_in_range [of "take (nat e) s" c]
  show ?thesis
  proof
    assume "?r = - 1"
    with eq show ?thesis by simp
  next
    assume a: "0 \<le> ?r \<and> ?r < int (length (take (nat e) s)) \<and> take (nat e) s ! nat ?r = c"
    with assms have lt: "?r < e" by simp
    with a have "nat ?r < nat e" by simp
    then have "take (nat e) s ! nat ?r = s ! nat ?r" by simp
    with a lt eq show ?thesis by simp
  qed
qed

subsection \<open>split: from the result back to the substring\<close>

lemma split_at_decomposed:
  "split_at (pre @ c # post) escape True (int (length pre))
   = (if escape then
        (case escape_attribute_value (strip post) of
           Inl e \<Rightarrow> Inl e
         | Inr v \<Rightarrow> Inr (strip pre, PyStr v))
      else Inr (strip pre, PyStr (strip post)))"
proof -
  have 1: "slice (pre @ c # post) 0 (int (length pre)) = pre" by (rule slice_prefix)
  have "slice ((pre @ [c]) @ post) (int (length (pre @ [c]))) (int (length ((pre @ [c]) @ post)))
        = post" by (rule slice_suffix)
  then have 2: "slice (pre @ c # post) (int (length pre) + 1) (int (length (pre @ c # post)))
        = post" by (simp add: add.commute)
  show ?thesis unfolding split_at_def Let_def 1 2 by simp
qed

lemma split_ava_loop_found:
  assumes "split_ava_loop ava escape strp e = Inr (t, x)" and "t \<noteq> []"
    and "e = - 1 \<or> (0 \<le> e \<and> e < int (length ava) \<and> ava ! nat e = equal_sign)"
  shows "\<exists>pre post. ava = pre @ equal_sign # post
           \<and> split_at ava escape strp (int (length pre)) = Inr (t, x)"
  using assms
proof (induction ava escape strp e rule: split_ava_loop.induct)
  case (1 ava escape strp e)
  show ?case
  proof (cases "0 < e")
    case False
    with "1.prems"(1,2) show ?thesis by (simp add: split_ava_loop.simps [of ava escape strp e])
  next
    case True
    with "1.prems"(3) have rng: "e < int (length ava)" and at: "ava ! nat e = equal_sign"
      by auto
    from True rng have g: "getitem ava (e - 1) = Inr (ava ! nat (e - 1))"
      by (simp add: getitem_def)
    show ?thesis
    proof (cases "ava ! nat (e - 1) = backslash")
      case False
      with True g "1.prems"(1) have r: "split_at ava escape strp e = Inr (t, x)"
        by (simp add: split_ava_loop.simps [of ava escape strp e])
      from True rng have "nat e < length ava" by simp
      then have "ava = take (nat e) ava @ ava ! nat e # drop (Suc (nat e)) ava"
        by (rule id_take_nth_drop)
      with at have d: "ava = take (nat e) ava @ equal_sign # drop (Suc (nat e)) ava" by simp
      from True rng have "int (length (take (nat e) ava)) = e" by simp
      with r have "split_at ava escape strp (int (length (take (nat e) ava))) = Inr (t, x)"
        by simp
      with d show ?thesis by blast
    next
      case bs: True
      let ?e' = "str_rfind_range ava equal_sign 0 e"
      from True g bs "1.prems"(1) have r: "split_ava_loop ava escape strp ?e' = Inr (t, x)"
        by (simp add: split_ava_loop.simps [of ava escape strp e])
      from True rng have "e \<le> int (length ava)" by simp
      from str_rfind_take_in_range [OF True this, of equal_sign] rng
      have inv: "?e' = - 1 \<or> (0 \<le> ?e' \<and> ?e' < int (length ava) \<and> ava ! nat ?e' = equal_sign)"
        by auto
      from True g bs show ?thesis
        by (intro "1.IH" [OF True g _ r "1.prems"(2) inv]) simp_all
    qed
  qed
qed

lemma split_ava_found:
  assumes "split_ava ava escape True = Inr (t, x)" and "t \<noteq> []"
  shows "\<exists>pre post. ava = pre @ equal_sign # post \<and> t = strip pre
           \<and> (if escape then (\<exists>v. escape_attribute_value (strip post) = Inr v \<and> x = PyStr v)
              else x = PyStr (strip post))"
proof -
  from assms(1) have "split_ava_loop ava escape True (str_rfind ava equal_sign) = Inr (t, x)"
    by (simp add: split_ava_def)
  from split_ava_loop_found [OF this assms(2) str_rfind_in_range]
  obtain pre post where d: "ava = pre @ equal_sign # post"
    and r: "split_at ava escape True (int (length pre)) = Inr (t, x)" by blast
  from r have "split_at (pre @ equal_sign # post) escape True (int (length pre)) = Inr (t, x)"
    unfolding d .
  then have "t = strip pre
           \<and> (if escape then (\<exists>v. escape_attribute_value (strip post) = Inr v \<and> x = PyStr v)
              else x = PyStr (strip post))"
    unfolding split_at_decomposed by (auto split: if_splits sum.splits)
  with d show ?thesis by blast
qed

subsection \<open>split: on a rendered triple\<close>

lemma split_ava_loop_rendered:
  assumes "t \<noteq> []" and "last t \<noteq> backslash"
    and "\<And>j. j < length v \<Longrightarrow> v ! j = equal_sign \<Longrightarrow> 0 < j \<and> v ! (j - 1) = backslash"
    and "length t \<le> e" and "e < length (t @ equal_sign # v)"
    and "(t @ equal_sign # v) ! e = equal_sign"
  shows "split_ava_loop (t @ equal_sign # v) escape strp (int e)
         = split_at (t @ equal_sign # v) escape strp (int (length t))"
  using assms(4,5,6)
proof (induction e rule: less_induct)
  case (less e)
  let ?a = "t @ equal_sign # v"
  from assms(1) less.prems(1) have pos: "0 < int e" by (cases t) simp_all
  with less.prems(2) have g: "getitem ?a (int e - 1) = Inr (?a ! (e - 1))"
    by (simp add: getitem_def nat_diff_distrib')
  show ?case
  proof (cases "e = length t")
    case True
    with assms(1) have "?a ! (e - 1) = last t"
      by (simp add: nth_append last_conv_nth)
    with assms(2) g pos
    have "split_ava_loop ?a escape strp (int e) = split_at ?a escape strp (int e)"
      by (simp add: split_ava_loop.simps [of ?a escape strp "int e"])
    then show ?thesis by (simp only: True)
  next
    case False
    with less.prems(1) have gt: "length t < e" by simp
    define j where "j = e - length t - 1"
    from gt less.prems(2) have j: "j < length v" by (simp add: j_def)
    from gt have "e = length t + Suc j" by (simp add: j_def)
    then have "?a ! e = v ! j"
      by (simp only: nth_append_length_plus nth_Cons_Suc)
    with less.prems(3) have "v ! j = equal_sign" by simp
    from assms(3) [OF j this] have jpos: "0 < j" and bs: "v ! (j - 1) = backslash" by simp_all
    from gt jpos have "e - 1 = length t + Suc (j - 1)" by (simp add: j_def)
    then have "?a ! (e - 1) = v ! (j - 1)"
      by (simp only: nth_append_length_plus nth_Cons_Suc)
    with bs have prev: "?a ! (e - 1) = backslash" by simp
    let ?e' = "str_rfind_range ?a equal_sign 0 (int e)"
    from pos g prev have step: "split_ava_loop ?a escape strp (int e)
        = split_ava_loop ?a escape strp ?e'"
      by (simp add: split_ava_loop.simps [of ?a escape strp "int e"])
    define s where "s = take e ?a"
    have e': "?e' = str_rfind s equal_sign"
      using str_rfind_range_take [OF pos, of ?a equal_sign] by (simp add: s_def)
    have ls: "length s = e" using less.prems(2) by (simp add: s_def)
    with gt have "length t < length s" by simp
    moreover from gt have "s ! length t = equal_sign" by (simp add: s_def nth_append)
    ultimately have l: "int (length t) \<le> str_rfind s equal_sign
        \<and> str_rfind s equal_sign < int (length s)
        \<and> s ! nat (str_rfind s equal_sign) = equal_sign"
      by (rule str_rfind_is_last)
    define k where "k = nat (str_rfind s equal_sign)"
    from l have nonneg: "0 \<le> str_rfind s equal_sign" by linarith
    with l ls have k: "int k = ?e'" "length t \<le> k" "k < e" "s ! k = equal_sign"
      unfolding k_def e' by (simp, linarith, linarith, simp)
    from k(3) have "s ! k = ?a ! k" unfolding s_def by (rule nth_take)
    with k(4) have "?a ! k = equal_sign" by simp
    from less.IH [OF k(3) k(2) _ this] k(3) less.prems(2)
    have "split_ava_loop ?a escape strp (int k) = split_at ?a escape strp (int (length t))"
      by simp
    with step k(1) show ?thesis by simp
  qed
qed

lemma split_ava_rendered:
  assumes "t \<noteq> []" and "last t \<noteq> backslash"
    and "\<And>j. j < length v \<Longrightarrow> v ! j = equal_sign \<Longrightarrow> 0 < j \<and> v ! (j - 1) = backslash"
  shows "split_ava (t @ equal_sign # v) escape True
         = (if escape then
              (case escape_attribute_value (strip v) of
                 Inl e \<Rightarrow> Inl e
               | Inr v' \<Rightarrow> Inr (strip t, PyStr v'))
            else Inr (strip t, PyStr (strip v)))"
proof -
  let ?a = "t @ equal_sign # v"
  have "length t < length ?a" by simp
  moreover have "?a ! length t = equal_sign" by simp
  ultimately have l: "int (length t) \<le> str_rfind ?a equal_sign
        \<and> str_rfind ?a equal_sign < int (length ?a)
        \<and> ?a ! nat (str_rfind ?a equal_sign) = equal_sign"
    by (rule str_rfind_is_last)
  define k where "k = nat (str_rfind ?a equal_sign)"
  from l have "0 \<le> str_rfind ?a equal_sign" by linarith
  with l have k: "int k = str_rfind ?a equal_sign" "length t \<le> k" "k < length ?a"
      "?a ! k = equal_sign"
    unfolding k_def by (simp, linarith, linarith, simp)
  have "split_ava ?a escape True = split_ava_loop ?a escape True (int k)"
    by (simp add: split_ava_def k(1))
  also have "\<dots> = split_at ?a escape True (int (length t))"
    using assms k(2,3,4) by (rule split_ava_loop_rendered)
  also have "\<dots> = (if escape then
              (case escape_attribute_value (strip v) of
                 Inl e \<Rightarrow> Inl e
               | Inr v' \<Rightarrow> Inr (strip t, PyStr v'))
            else Inr (strip t, PyStr (strip v)))"
    by (rule split_at_decomposed)
  finally show ?thesis .
qed

subsection \<open>What a validated type and value look like\<close>

lemma validate_attribute_type_True:
  assumes "validate_attribute_type t = Inr True"
  shows "t \<noteq> []" and "set t \<subseteq> set type_chars"
proof -
  from assms show ne: "t \<noteq> []" by (auto simp: validate_attribute_type_def)
  from assms ne have "List.find (\<lambda>c. c \<notin> set type_chars) t = None"
    by (auto simp: validate_attribute_type_def split: option.splits if_splits)
  then show "set t \<subseteq> set type_chars" by (auto simp: find_None_iff)
qed

lemma type_chars_plain:
  "c \<in> set type_chars \<Longrightarrow>
   c \<noteq> backslash \<and> c \<noteq> comma \<and> c \<noteq> plus_sign \<and> c \<noteq> equal_sign"
  by (auto simp: type_chars_def)

lemma valid_type_strip:
  assumes "validate_attribute_type t = Inr True"
  shows "strip t = t"
proof -
  note v = validate_attribute_type_True [OF assms]
  from v have "hd t \<in> set type_chars" "last t \<in> set type_chars" by auto
  then have "\<not> isspace (hd t)" "\<not> isspace (last t)" by (simp_all add: type_char_not_space)
  with v(1) show ?thesis by (rule strip_id)
qed

lemma validate_loop_special_first:
  "c \<in> set special_chars \<Longrightarrow> \<exists>e. validate_loop STATE_ANY (c # cs) = Inl e"
  by (auto simp: special_chars_def)

lemma validate_attribute_value_True:
  assumes "validate_attribute_value v = Inr True"
  shows "v \<noteq> []" and "hd v \<noteq> CHR ''#''" and "hd v \<noteq> CHR '' ''" and "last v \<noteq> CHR '' ''"
    and "validate_loop STATE_ANY v = Inr STATE_ANY"
proof -
  from assms show ne: "v \<noteq> []" by (auto simp: validate_attribute_value_def)
  from assms ne show sp: "hd v \<noteq> CHR '' ''" and "last v \<noteq> CHR '' ''"
    by (auto simp: validate_attribute_value_def split: option.splits if_splits)
  from assms ne show l: "validate_loop STATE_ANY v = Inr STATE_ANY"
    by (auto simp: validate_attribute_value_def split: option.splits if_splits sum.splits)
  show "hd v \<noteq> CHR ''#''"
  proof
    assume h: "hd v = CHR ''#''"
    with ne obtain cs where "v = CHR ''#'' # cs" by (cases v) auto
    moreover have "CHR ''#'' \<in> set special_chars" by (simp add: special_chars_def)
    ultimately have "\<exists>e. validate_loop STATE_ANY v = Inl e"
      using validate_loop_special_first by blast
    with l show False by simp
  qed
qed

lemma validate_step_special:
  "validate_step st c = Inr st' \<Longrightarrow> c \<in> set special_chars \<Longrightarrow> st = STATE_ESCAPE"
  by (cases st) (auto simp: special_not_hex special_chars_def split: if_splits)

lemma validate_step_to_escape:
  "validate_step st c = Inr STATE_ESCAPE \<Longrightarrow> c = backslash"
  by (cases st) (auto split: if_splits)

lemma validate_loop_special:
  "validate_loop st v = Inr st' \<Longrightarrow> j < length v \<Longrightarrow> v ! j \<in> set special_chars \<Longrightarrow>
   (j = 0 \<and> st = STATE_ESCAPE) \<or> (0 < j \<and> v ! (j - 1) = backslash)"
proof (induction v arbitrary: st j)
  case Nil
  then show ?case by simp
next
  case (Cons c cs)
  from Cons.prems(1) obtain st1 where s1: "validate_step st c = Inr st1"
    and l1: "validate_loop st1 cs = Inr st'"
    by (auto split: sum.splits)
  show ?case
  proof (cases j)
    case 0
    with Cons.prems(3) s1 show ?thesis by (auto dest: validate_step_special)
  next
    case (Suc k)
    with Cons.prems(2,3) have "k < length cs" "cs ! k \<in> set special_chars" by simp_all
    from Cons.IH [OF l1 this]
    show ?thesis
    proof
      assume "k = 0 \<and> st1 = STATE_ESCAPE"
      with s1 have "c = backslash" by (auto dest: validate_step_to_escape)
      with Suc \<open>k = 0 \<and> st1 = STATE_ESCAPE\<close> show ?thesis by simp
    next
      assume "0 < k \<and> cs ! (k - 1) = backslash"
      with Suc show ?thesis by (cases k) simp_all
    qed
  qed
qed

lemma valid_value_equal_escaped:
  assumes "validate_attribute_value v = Inr True" and "j < length v" and "v ! j = equal_sign"
  shows "0 < j \<and> v ! (j - 1) = backslash"
proof -
  have "equal_sign \<in> set special_chars" by (simp add: special_chars_def)
  with assms(3) have "v ! j \<in> set special_chars" by simp
  from validate_loop_special [OF validate_attribute_value_True(5) [OF assms(1)] assms(2) this]
  show ?thesis by simp
qed

subsection \<open>The escaper leaves a validated value as it is\<close>

lemma escape_step_valid:
  "validate_step st c = Inr st1 \<Longrightarrow>
   \<exists>e1 b1. escape_step (st, e, b) c = (st1, e1, b1)
     \<and> e1 @ pending st1 b1 = e @ pending st b @ [c]"
  by (cases st) (auto split: if_splits)

lemma escape_loop_valid:
  "validate_loop st v = Inr st' \<Longrightarrow>
   \<exists>e' b'. foldl escape_step (st, e, b) v = (st', e', b')
     \<and> e' @ pending st' b' = e @ pending st b @ v"
proof (induction v arbitrary: st e b)
  case Nil
  then show ?case by simp
next
  case (Cons c cs)
  from Cons.prems obtain st1 where s1: "validate_step st c = Inr st1"
    and l1: "validate_loop st1 cs = Inr st'"
    by (auto split: sum.splits)
  from escape_step_valid [OF s1, of e b] obtain e1 b1 where
    step: "escape_step (st, e, b) c = (st1, e1, b1)"
    and out: "e1 @ pending st1 b1 = e @ pending st b @ [c]" by blast
  from Cons.IH [OF l1, of e1 b1] obtain e' b' where
    "foldl escape_step (st1, e1, b1) cs = (st', e', b')"
    "e' @ pending st' b' = e1 @ pending st1 b1 @ cs" by blast
  with step out show ?case by simp
qed

lemma escape_valid_value:
  assumes "validate_attribute_value v = Inr True"
  shows "escape_attribute_value v = Inr v"
proof -
  note val = validate_attribute_value_True [OF assms]
  from escape_loop_valid [OF val(5), of "[]" "[]"] obtain e' b' where
    "foldl escape_step (STATE_ANY, [], []) v = (STATE_ANY, e', b')" and "e' = v"
    by auto
  then have "escape_final (escape_loop v) = v"
    by (simp add: escape_loop_def escape_final_def)
  moreover have "escape_spaces v = Inr v"
    using val(1,3,4) by (simp add: escape_spaces_no_trailing_space)
  ultimately show ?thesis using val(1,2) by (simp add: escape_attribute_value_def)
qed

lemma validate_valid_value_strip:
  assumes "validate_attribute_value (strip p) = Inr True"
  shows "strip (strip p) = strip p"
  by (rule strip_idem)

subsection \<open>The loop and the rendering\<close>

lemma foldl_render_acc:
  "foldl (\<lambda>acc rdn. case rdn of (t, v, s) \<Rightarrow> acc @ t @ equal_sign # v @ s) acc ts
   = acc @ foldl (\<lambda>acc rdn. case rdn of (t, v, s) \<Rightarrow> acc @ t @ equal_sign # v @ s) [] ts"
proof (induction ts arbitrary: acc)
  case Nil
  then show ?case by simp
next
  case (Cons rdn ts)
  obtain t v s where rdn: "rdn = (t, v, s)" by (cases rdn)
  show ?case
    unfolding rdn
    by (simp only: foldl_Cons prod.case append_Nil Cons.IH [of "acc @ t @ equal_sign # v @ s"]
          Cons.IH [of "t @ equal_sign # v @ s"] append_assoc)
qed

lemma join_rdns_Nil: "join_rdns [] = []"
  by (simp add: join_rdns_def)

lemma join_rdns_Cons: "join_rdns ((t, v, s) # ts) = t @ equal_sign # v @ s @ join_rdns ts"
  unfolding join_rdns_def
  using foldl_render_acc [of "t @ equal_sign # v @ s" ts] by simp

lemma parse_dn_loop_acc:
  "parse_dn_loop dn escape strp acc
   = (case parse_dn_loop dn escape strp [] of Inl e \<Rightarrow> Inl e | Inr ts \<Rightarrow> Inr (acc @ ts))"
proof (induction "length dn" arbitrary: dn acc rule: less_induct)
  case less
  show ?case
  proof (cases "parse_dn_step dn escape strp")
    case (Inl e)
    then show ?thesis by (simp add: parse_dn_loop.simps [of dn])
  next
    case (Inr r)
    show ?thesis
    proof (cases r)
      case None
      with Inr show ?thesis by (simp add: parse_dn_loop.simps [of dn])
    next
      case (Some p)
      obtain rdn dn' where p: "p = (rdn, dn')" by (cases p)
      have a: "parse_dn_loop dn escape strp rdns = parse_dn_loop dn' escape strp (rdns @ [rdn])"
        for rdns
        using Inr Some p by (simp add: parse_dn_loop.simps [of dn])
      from Inr Some p have "length dn' < length dn"
        by (intro parse_dn_step_shrinks [of dn escape strp rdn dn']) simp
      note ih = less [OF this]
      show ?thesis
        unfolding a [of acc] a [of "[]"] ih [of "acc @ [rdn]"] ih [of "[] @ [rdn]"]
        by (simp split: sum.splits)
    qed
  qed
qed

lemma parse_dn_Cons:
  "parse_dn_step dn escape strp = Inr (Some (rdn, dn')) \<Longrightarrow>
   parse_dn dn escape strp
   = (case parse_dn dn' escape strp of Inl e \<Rightarrow> Inl e | Inr ts \<Rightarrow> Inr (rdn # ts))"
  unfolding parse_dn_def
  using parse_dn_loop_acc [of dn' escape strp "[rdn]"]
  by (simp add: parse_dn_loop.simps [of dn escape strp "[]"] split: sum.splits)

lemma parse_dn_done:
  "parse_dn_step dn escape strp = Inr None \<Longrightarrow> parse_dn dn escape strp = Inr []"
  unfolding parse_dn_def by (simp add: parse_dn_loop.simps [of dn escape strp "[]"])

lemma parse_dn_error:
  "parse_dn_step dn escape strp = Inl e \<Longrightarrow> parse_dn dn escape strp = Inl e"
  unfolding parse_dn_def by (simp add: parse_dn_loop.simps [of dn escape strp "[]"])

subsection \<open>One iteration of the loop\<close>

lemma parse_dn_step_Some:
  assumes "parse_dn_step dn escape True = Inr (Some ((t, v, s), rest))"
  obtains ava where "get_next_ava dn = (ava, s)" and "ava \<noteq> []"
    and "split_ava ava escape True = Inr (t, PyStr v)"
    and "validate_attribute_type t = Inr True" and "validate_attribute_value v = Inr True"
    and "rest = drop (Suc (length ava)) dn"
proof -
  obtain ava sep where g: "get_next_ava dn = (ava, sep)" by (cases "get_next_ava dn")
  from assms g have ne: "ava \<noteq> []"
    by (auto simp: parse_dn_step_def split: if_splits)
  from assms g ne obtain x where sp: "split_ava ava escape True = Inr (t, x)"
    and ty: "validate_attribute_type t = Inr True"
    by (auto simp: parse_dn_step_def
        split: sum.splits bool.splits pyval.splits if_splits prod.splits)
  from assms g ne sp ty have x: "x = PyStr v" and va: "validate_attribute_value v = Inr True"
    and s: "sep = s" and r: "rest = slice dn (int (length ava) + 1) (int (length dn))"
    by (auto simp: parse_dn_step_def validate_pyval_def
        split: sum.splits bool.splits pyval.splits if_splits)
  from r have "rest = drop (Suc (length ava)) dn"
    by (simp add: slice_to_end nat_add_distrib)
  with g ne sp ty x va s show thesis by (intro that [of ava]) simp_all
qed

lemma parse_dn_step_SomeI:
  assumes "get_next_ava dn = (ava, s)" and "ava \<noteq> []"
    and "split_ava ava escape True = Inr (t, PyStr v)"
    and "validate_attribute_type t = Inr True" and "validate_attribute_value v = Inr True"
  shows "parse_dn_step dn escape True = Inr (Some ((t, v, s), drop (Suc (length ava)) dn))"
  using assms
  by (simp add: parse_dn_step_def validate_pyval_def slice_to_end nat_add_distrib)

lemma parse_dn_step_None:
  assumes "parse_dn_step dn escape True = Inr None"
  shows "dn = []"
proof -
  obtain ava sep where g: "get_next_ava dn = (ava, sep)" by (cases "get_next_ava dn")
  from assms g have e: "ava = []"
    by (auto simp: parse_dn_step_def validate_pyval_def
        split: sum.splits bool.splits pyval.splits if_splits)
  from g show ?thesis
  proof (cases rule: get_next_ava_cases)
    case final
    with e show ?thesis by simp
  next
    case (at_comma rest)
    with e show ?thesis by simp
  next
    case (at_plus rest)
    with e show ?thesis by simp
  qed
qed

lemma parse_dn_step_Nil: "parse_dn_step [] escape strp = Inr None"
  by (simp add: parse_dn_step_def get_next_ava_empty)

subsection \<open>The flag \<open>escape\<close> on a value that is already valid\<close>

lemma split_ava_loop_escape:
  "split_ava_loop ava False True e = Inr (t, PyStr r) \<Longrightarrow> escape_attribute_value r = Inr r \<Longrightarrow>
   split_ava_loop ava True True e = Inr (t, PyStr r)"
proof (induction "nat e" arbitrary: e rule: less_induct)
  case less
  show ?case
  proof (cases "0 < e")
    case False
    with less.prems(1) show ?thesis by (simp add: split_ava_loop.simps [of ava _ True e])
  next
    case True
    from less.prems(1) True obtain c where c: "getitem ava (e - 1) = Inr c"
      by (auto simp: split_ava_loop.simps [of ava False True e] split: sum.splits)
    show ?thesis
    proof (cases "c = backslash")
      case False
      with less.prems True c show ?thesis
        by (auto simp: split_ava_loop.simps [of ava _ True e] split_at_def Let_def
            split: sum.splits)
    next
      case bs: True
      let ?e' = "str_rfind_range ava equal_sign 0 e"
      have "?e' < e" using True by (rule str_rfind_range_less)
      then have m: "nat ?e' < nat e" using True by linarith
      from less.prems(1) True c bs
      have "split_ava_loop ava False True ?e' = Inr (t, PyStr r)"
        by (simp add: split_ava_loop.simps [of ava False True e])
      from less.hyps [OF m this less.prems(2)] True c bs show ?thesis
        by (simp add: split_ava_loop.simps [of ava True True e])
    qed
  qed
qed

lemma parse_dn_step_escape:
  assumes "parse_dn_step dn False True = Inr (Some (rdn, rest))"
  shows "parse_dn_step dn True True = Inr (Some (rdn, rest))"
proof -
  obtain t v s where rdn: "rdn = (t, v, s)" by (cases rdn)
  from assms [unfolded rdn] obtain ava where g: "get_next_ava dn = (ava, s)" and ne: "ava \<noteq> []"
    and sp: "split_ava ava False True = Inr (t, PyStr v)"
    and ty: "validate_attribute_type t = Inr True"
    and va: "validate_attribute_value v = Inr True"
    and r: "rest = drop (Suc (length ava)) dn"
    by (rule parse_dn_step_Some)
  from sp escape_valid_value [OF va] have "split_ava ava True True = Inr (t, PyStr v)"
    unfolding split_ava_def by (rule split_ava_loop_escape)
  from parse_dn_step_SomeI [OF g ne this ty va] show ?thesis by (simp add: rdn r)
qed

lemma parse_dn_escape:
  "parse_dn dn False True = Inr ts \<Longrightarrow> parse_dn dn True True = Inr ts"
proof (induction "length dn" arbitrary: dn ts rule: less_induct)
  case less
  show ?case
  proof (cases "parse_dn_step dn False True")
    case (Inl e)
    with less.prems show ?thesis by (simp add: parse_dn_error)
  next
    case (Inr r)
    show ?thesis
    proof (cases r)
      case None
      with Inr have "parse_dn_step dn False True = Inr None" by simp
      then have "dn = []" by (rule parse_dn_step_None)
      with less.prems None Inr show ?thesis
        by (simp add: parse_dn_done parse_dn_step_Nil)
    next
      case (Some p)
      obtain rdn dn' where p: "p = (rdn, dn')" by (cases p)
      with Inr Some have st: "parse_dn_step dn False True = Inr (Some (rdn, dn'))" by simp
      from less.prems obtain ts' where ts': "parse_dn dn' False True = Inr ts'"
        and ts: "ts = rdn # ts'"
        by (auto simp: parse_dn_Cons [OF st] split: sum.splits)
      from st have "length dn' < length dn" by (rule parse_dn_step_shrinks)
      from less.hyps [OF this ts'] have "parse_dn dn' True True = Inr ts'" .
      with ts show ?thesis by (simp add: parse_dn_Cons [OF parse_dn_step_escape [OF st]])
    qed
  qed
qed

subsection \<open>The tokenizer on a rendered DN\<close>

lemma get_next_ava_at_comma:
  assumes "a \<noteq> []" and "comma \<notin> set a" and "hd a \<noteq> plus_sign"
    and "equal_sign \<notin> set (dropWhile (\<lambda>c. c \<noteq> plus_sign) a)"
  shows "get_next_ava (a @ comma # r) = (a, '','')"
proof (cases "plus_sign \<in> set a")
  case False
  with assms(1,2) show ?thesis by (intro get_next_ava_comma)
next
  case True
  then obtain pp rp where a: "a = pp @ plus_sign # rp" and pp: "plus_sign \<notin> set pp"
    by (meson split_list_first)
  from a assms(3) have ne: "pp \<noteq> []" by (cases pp) auto
  from pp have "dropWhile (\<lambda>c. c \<noteq> plus_sign) (pp @ plus_sign # rp) = plus_sign # rp"
    by (subst dropWhile_append2) auto
  with assms(4) a have eq: "equal_sign \<notin> set rp" by simp
  from assms(2) a have "comma \<notin> set pp" "comma \<notin> set rp" by simp_all
  from get_next_ava_plus_inside [OF ne pp this, of r] eq a show ?thesis by simp
qed

lemma get_next_ava_at_plus:
  assumes "a \<noteq> []" and "comma \<notin> set a" and "plus_sign \<notin> set a" and "comma \<in> set R"
    and "equal_sign \<in> set (takeWhile (\<lambda>c. c \<noteq> comma) R)"
  shows "get_next_ava (a @ plus_sign # R) = (a, ''+'')"
proof -
  from assms(4) obtain rp r where R: "R = rp @ comma # r" and rp: "comma \<notin> set rp"
    by (meson split_list_first)
  from rp have "takeWhile (\<lambda>c. c \<noteq> comma) (rp @ comma # r) = rp"
    by (rule takeWhile_neq_first)
  with assms(5) R have eq: "equal_sign \<in> set rp" by simp
  from get_next_ava_plus_inside [OF assms(1,3,2) rp, of r] eq R show ?thesis by simp
qed

lemma set_strip_nonspace: "c \<in> set s \<Longrightarrow> \<not> isspace c \<Longrightarrow> c \<in> set (strip s)"
proof -
  assume c: "c \<in> set s" "\<not> isspace c"
  obtain l r where s: "s = l @ strip s @ r" and l: "\<forall>c \<in> set l. isspace c"
    and r: "\<forall>c \<in> set r. isspace c"
    using strip_decompose by blast
  from c(1) have "c \<in> set (l @ strip s @ r)" by (simp only: s [symmetric])
  with c(2) l r show ?thesis by auto
qed

lemma plain_not_space:
  "\<not> isspace comma" "\<not> isspace plus_sign" "\<not> isspace equal_sign"
  by (simp_all add: isspace_def)

subsection \<open>Parsed triples that render to a DN with the same parse\<close>

lemma valid_type_plain:
  assumes "validate_attribute_type t = Inr True"
  shows "t \<noteq> []" and "comma \<notin> set t" and "plus_sign \<notin> set t" and "equal_sign \<notin> set t"
    and "last t \<noteq> backslash" and "hd t \<noteq> plus_sign"
proof -
  note v = validate_attribute_type_True [OF assms]
  show "t \<noteq> []" by (rule v)
  show "comma \<notin> set t" "plus_sign \<notin> set t" "equal_sign \<notin> set t"
    using v(2) type_chars_plain by blast+
  from v have "last t \<in> set type_chars" "hd t \<in> set type_chars" by auto
  then show "last t \<noteq> backslash" "hd t \<noteq> plus_sign" using type_chars_plain by blast+
qed

lemma parse_dn_step_canonical:
  assumes ty: "validate_attribute_type t = Inr True"
    and va: "validate_attribute_value v = Inr True"
    and st: "strip v = v"
    and g: "get_next_ava dn = (t @ equal_sign # v, s)"
  shows "parse_dn_step dn escape True
         = Inr (Some ((t, v, s), drop (Suc (length (t @ equal_sign # v))) dn))"
proof -
  note tp = valid_type_plain [OF ty]
  have "split_ava (t @ equal_sign # v) escape True
        = (if escape then
             (case escape_attribute_value (strip v) of
                Inl e \<Rightarrow> Inl e
              | Inr v' \<Rightarrow> Inr (strip t, PyStr v'))
           else Inr (strip t, PyStr (strip v)))"
    using tp(1,5) valid_value_equal_escaped [OF va] by (intro split_ava_rendered) auto
  then have sp: "split_ava (t @ equal_sign # v) escape True = Inr (t, PyStr v)"
    by (simp add: st valid_type_strip [OF ty] escape_valid_value [OF va])
  show ?thesis by (rule parse_dn_step_SomeI [OF g _ sp ty va]) simp
qed

subsection \<open>Re-parsing the rendered triples\<close>

lemma rendered_final:
  assumes "validate_attribute_type t = Inr True" and "comma \<notin> set v"
  shows "get_next_ava (t @ equal_sign # v) = (t @ equal_sign # v, [])"
proof -
  note tp = valid_type_plain [OF assms(1)]
  have "comma \<notin> set (t @ equal_sign # v)" using tp(2) assms(2) by simp
  then show ?thesis by (rule get_next_ava_no_comma)
qed

lemma rendered_comma:
  assumes "validate_attribute_type t = Inr True" and "comma \<notin> set v"
    and e: "equal_sign \<notin> set (dropWhile (\<lambda>c. c \<noteq> plus_sign) v)"
  shows "get_next_ava ((t @ equal_sign # v) @ comma # R) = (t @ equal_sign # v, '','')"
proof -
  note tp = valid_type_plain [OF assms(1)]
  let ?a = "t @ equal_sign # v"
  have ne: "?a \<noteq> []" by simp
  have ca: "comma \<notin> set ?a" using tp(2) assms(2) by simp
  have hd: "hd ?a \<noteq> plus_sign" using tp(1,6) by simp
  have "\<And>x. x \<in> set (t @ [equal_sign]) \<Longrightarrow> x \<noteq> plus_sign" using tp(3) by auto
  then have "dropWhile (\<lambda>c. c \<noteq> plus_sign) ((t @ [equal_sign]) @ v)
        = dropWhile (\<lambda>c. c \<noteq> plus_sign) v"
    by (rule dropWhile_append2)
  then have d: "dropWhile (\<lambda>c. c \<noteq> plus_sign) ?a = dropWhile (\<lambda>c. c \<noteq> plus_sign) v"
    by (simp only: append_assoc append_Cons append_Nil)
  have "equal_sign \<notin> set (dropWhile (\<lambda>c. c \<noteq> plus_sign) ?a)"
    using e by (simp only: d not_False_eq_True)
  with ne ca hd show ?thesis by (rule get_next_ava_at_comma)
qed

lemma rendered_plus:
  assumes "validate_attribute_type t = Inr True" and "comma \<notin> set v"
    and "plus_sign \<notin> set v" and "comma \<in> set R"
    and "equal_sign \<in> set (takeWhile (\<lambda>c. c \<noteq> comma) R)"
  shows "get_next_ava ((t @ equal_sign # v) @ plus_sign # R) = (t @ equal_sign # v, ''+'')"
proof -
  note tp = valid_type_plain [OF assms(1)]
  let ?a = "t @ equal_sign # v"
  have ne: "?a \<noteq> []" by simp
  have ca: "comma \<notin> set ?a" using tp(2) assms(2) by simp
  have pa: "plus_sign \<notin> set ?a" using tp(3) assms(3) by simp
  from ne ca pa assms(4,5) show ?thesis by (rule get_next_ava_at_plus)
qed

lemma join_rdns_first_equal:
  assumes "canonical ts" and "comma \<in> set (join_rdns ts)"
  shows "equal_sign \<in> set (takeWhile (\<lambda>c. c \<noteq> comma) (join_rdns ts))"
proof (cases ts)
  case Nil
  with assms(2) show ?thesis by (simp add: join_rdns_Nil)
next
  case (Cons rdn ts')
  obtain t v s where rdn: "rdn = (t, v, s)" by (cases rdn)
  from assms(1) Cons rdn have ty: "validate_attribute_type t = Inr True" by simp
  note tp = valid_type_plain [OF ty]
  have "takeWhile (\<lambda>c. c \<noteq> comma) ((t @ [equal_sign]) @ v @ s @ join_rdns ts')
        = (t @ [equal_sign]) @ takeWhile (\<lambda>c. c \<noteq> comma) (v @ s @ join_rdns ts')"
    using tp(2) by (intro takeWhile_append2) auto
  then show ?thesis by (simp add: Cons rdn join_rdns_Cons)
qed

lemma canonical_Cons:
  assumes "canonical ((t, v, s) # ts)"
  shows "validate_attribute_type t = Inr True" and "validate_attribute_value v = Inr True"
    and "strip v = v" and "comma \<notin> set v" and "canonical ts"
    and "s = [] \<Longrightarrow> ts = []"
    and "s = '','' \<Longrightarrow> equal_sign \<notin> set (dropWhile (\<lambda>c. c \<noteq> plus_sign) v)"
    and "s \<noteq> [] \<Longrightarrow> s \<noteq> '','' \<Longrightarrow>
         s = ''+'' \<and> plus_sign \<notin> set v \<and> comma \<in> set (join_rdns ts)"
  using assms by (simp_all split: if_splits)

lemma get_next_ava_canonical:
  assumes "canonical ((t, v, s) # ts)"
  shows "get_next_ava (join_rdns ((t, v, s) # ts)) = (t @ equal_sign # v, s)"
proof -
  note c = canonical_Cons [OF assms]
  show ?thesis
  proof (cases "s = []")
    case True
    from c(6) [OF True] have "join_rdns ((t, v, s) # ts) = t @ equal_sign # v"
      by (simp add: True join_rdns_Cons join_rdns_Nil)
    with rendered_final [OF c(1,4)] True show ?thesis by (simp only:)
  next
    case ne: False
    show ?thesis
    proof (cases "s = '',''")
      case True
      have "join_rdns ((t, v, s) # ts) = (t @ equal_sign # v) @ comma # join_rdns ts"
        by (simp add: True join_rdns_Cons)
      with rendered_comma [OF c(1,4) c(7) [OF True], of "join_rdns ts"] True
      show ?thesis by (simp only:)
    next
      case False
      from c(8) [OF ne False] have s: "s = ''+''" and pv: "plus_sign \<notin> set v"
        and cj: "comma \<in> set (join_rdns ts)" by simp_all
      have j: "join_rdns ((t, v, s) # ts) = (t @ equal_sign # v) @ plus_sign # join_rdns ts"
        by (simp add: s join_rdns_Cons)
      from rendered_plus [OF c(1,4) pv cj join_rdns_first_equal [OF c(5) cj]] j s
      show ?thesis by (simp only:)
    qed
  qed
qed

lemma drop_rendered:
  assumes "canonical ((t, v, s) # ts)"
  shows "drop (Suc (length (t @ equal_sign # v))) (join_rdns ((t, v, s) # ts)) = join_rdns ts"
proof -
  note c = canonical_Cons [OF assms]
  have j: "join_rdns ((t, v, s) # ts) = (t @ equal_sign # v) @ s @ join_rdns ts"
    by (simp add: join_rdns_Cons)
  show ?thesis
  proof (cases "s = []")
    case True
    with c(6) have "ts = []" by simp
    with True show ?thesis unfolding j by (simp add: join_rdns_Nil)
  next
    case ne: False
    have "\<exists>x. s = [x]"
    proof (cases "s = '',''")
      case True
      then show ?thesis by simp
    next
      case False
      from c(8) [OF ne False] show ?thesis by simp
    qed
    then obtain x where "s = [x]" ..
    then show ?thesis unfolding j by simp
  qed
qed

lemma parse_dn_canonical:
  "canonical ts \<Longrightarrow> parse_dn (join_rdns ts) escape True = Inr ts"
proof (induction ts)
  case Nil
  have "parse_dn_step [] escape True = Inr None" by (rule parse_dn_step_Nil)
  then have "parse_dn [] escape True = Inr []" by (rule parse_dn_done)
  then show ?case by (simp only: join_rdns_Nil)
next
  case (Cons rdn ts)
  obtain t v s where rdn: "rdn = (t, v, s)" by (cases rdn)
  from Cons.prems have can: "canonical ((t, v, s) # ts)" by (simp only: rdn)
  note c = canonical_Cons [OF can]
  let ?dn = "join_rdns ((t, v, s) # ts)"
  from parse_dn_step_canonical [OF c(1,2,3) get_next_ava_canonical [OF can], of escape]
  have "parse_dn_step ?dn escape True = Inr (Some ((t, v, s), join_rdns ts))"
    by (simp only: drop_rendered [OF can])
  from parse_dn_Cons [OF this] Cons.IH [OF c(5)]
  have "parse_dn ?dn escape True = Inr ((t, v, s) # ts)" by simp
  then show ?case by (simp only: rdn)
qed

subsection \<open>What the escaper keeps of a stripped value\<close>

lemma backslash_not_hex: "backslash \<notin> set hexdigits"
  by (simp add: hexdigits_def)

lemma backslash_escapable: "backslash \<in> set escapable_chars"
  by (simp add: escapable_chars_def)

lemma escape_step_unescaped:
  "escape_step (st, e, b) c = (st1, e1, b1) \<Longrightarrow>
   unescaped (e1 @ buffered st1 b1) = unescaped (e @ buffered st b @ [c])"
  using backslash_not_hex backslash_escapable
  by (cases st) (auto split: if_splits)

lemma foldl_escape_step_unescaped:
  "foldl escape_step (st, e, b) cs = (st', e', b') \<Longrightarrow>
   unescaped (e' @ buffered st' b') = unescaped (e @ buffered st b @ cs)"
proof (induction cs arbitrary: st e b)
  case Nil
  then show ?case by simp
next
  case (Cons c cs)
  obtain st1 e1 b1 where s: "escape_step (st, e, b) c = (st1, e1, b1)"
    by (cases "escape_step (st, e, b) c")
  with Cons.prems have "foldl escape_step (st1, e1, b1) cs = (st', e', b')" by simp
  from Cons.IH [OF this] escape_step_unescaped [OF s] show ?case by simp
qed

lemma escape_final_unescaped:
  "unescaped (escape_final (st, e, b)) = unescaped (e @ buffered st b)"
  by (cases st) (simp_all add: escape_final_def)

lemma escape_loop_unescaped: "unescaped (escape_final (escape_loop v)) = unescaped v"
proof -
  obtain st e b where r: "escape_loop v = (st, e, b)" by (cases "escape_loop v")
  then have "foldl escape_step (STATE_ANY, [], []) v = (st, e, b)" by (simp add: escape_loop_def)
  from foldl_escape_step_unescaped [OF this] show ?thesis
    unfolding r escape_final_unescaped by simp
qed

lemma escape_step_prefix: "\<exists>suf. fst (snd (escape_step (st, e, b) c)) = e @ suf"
  by (cases st) simp_all

lemma escape_final_prefix: "\<exists>suf. escape_final (st, e, b) = e @ suf"
  by (cases st) (simp_all add: escape_final_def)

lemma foldl_escape_step_prefix:
  "\<exists>suf. escape_final (foldl escape_step (st, e, b) cs) = e @ suf"
proof (induction cs arbitrary: st e b)
  case Nil
  show ?case using escape_final_prefix [of st e b] by simp
next
  case (Cons c cs)
  obtain st1 e1 b1 where s: "escape_step (st, e, b) c = (st1, e1, b1)"
    by (cases "escape_step (st, e, b) c")
  from escape_step_prefix [of st e b c] s obtain s1 where e1: "e1 = e @ s1" by auto
  from Cons.IH [of st1 e1 b1] obtain s2 where
    "escape_final (foldl escape_step (st1, e1, b1) cs) = e1 @ s2" by blast
  with s e1 show ?case by simp
qed

lemma foldl_escape_step_pending_first:
  "st \<noteq> STATE_ANY \<Longrightarrow>
   \<exists>suf. escape_final (foldl escape_step (st, [], b) cs) = backslash # suf"
proof (induction cs arbitrary: st b)
  case Nil
  then show ?case by (cases st) (simp_all add: escape_final_def)
next
  case (Cons c cs)
  obtain st1 e1 b1 where s: "escape_step (st, [], b) c = (st1, e1, b1)"
    by (cases "escape_step (st, [], b) c")
  show ?case
  proof (cases "e1 = []")
    case True
    with s Cons.prems have "st1 \<noteq> STATE_ANY" by (cases st) (auto split: if_splits)
    from Cons.IH [OF this, of b1] s True show ?thesis by simp
  next
    case False
    with s Cons.prems obtain x where e1: "e1 = backslash # x"
      by (cases st) (auto split: if_splits)
    from foldl_escape_step_prefix [of st1 e1 b1 cs] obtain suf where
      "escape_final (foldl escape_step (st1, e1, b1) cs) = e1 @ suf" by blast
    with s e1 show ?thesis by simp
  qed
qed

lemma escape_loop_first:
  assumes "v \<noteq> []"
  shows "escape_final (escape_loop v) \<noteq> []
         \<and> (hd (escape_final (escape_loop v)) = backslash \<or> hd (escape_final (escape_loop v)) = hd v)"
proof -
  from assms obtain c cs where v: "v = c # cs" by (cases v) auto
  obtain st1 e1 b1 where s: "escape_step (STATE_ANY, [], []) c = (st1, e1, b1)"
    by (cases "escape_step (STATE_ANY, [], []) c")
  have l: "escape_final (escape_loop v) = escape_final (foldl escape_step (st1, e1, b1) cs)"
    by (simp only: v escape_loop_def foldl_Cons s)
  show ?thesis
  proof (cases "e1 = []")
    case True
    with s have "st1 \<noteq> STATE_ANY" by (auto split: if_splits)
    from foldl_escape_step_pending_first [OF this, of b1 cs] True l show ?thesis by auto
  next
    case False
    with s have h: "hd e1 = backslash \<or> hd e1 = c" by (auto split: if_splits)
    from foldl_escape_step_prefix [of st1 e1 b1 cs] obtain suf where
      "escape_final (foldl escape_step (st1, e1, b1) cs) = e1 @ suf" by blast
    with l False h show ?thesis by (simp add: v)
  qed
qed

lemma escape_final_step_last:
  "escape_final (escape_step (st, e, b) c) \<noteq> []
   \<and> (last (escape_final (escape_step (st, e, b) c)) = backslash
      \<or> last (escape_final (escape_step (st, e, b) c)) = c)"
  by (cases st) (simp_all add: escape_final_def)

lemma escape_loop_last:
  assumes "v \<noteq> []"
  shows "last (escape_final (escape_loop v)) = backslash
         \<or> last (escape_final (escape_loop v)) = last v"
proof -
  from assms obtain ys c where v: "v = ys @ [c]" by (cases v rule: rev_cases) auto
  obtain st e b where r: "foldl escape_step (STATE_ANY, [], []) ys = (st, e, b)"
    by (cases "foldl escape_step (STATE_ANY, [], []) ys")
  have "escape_final (escape_loop v) = escape_final (escape_step (st, e, b) c)"
    by (simp only: v escape_loop_def foldl_append foldl_Cons foldl_Nil r)
  with escape_final_step_last [of st e b c] show ?thesis by (simp add: v)
qed

lemma backslash_not_space: "\<not> isspace backslash"
  by (simp add: isspace_def)

lemma space_isspace: "isspace (CHR '' '')"
  by (simp add: isspace_def)

lemma escape_stripped_value:
  assumes ne: "x \<noteq> []" and h: "\<not> isspace (hd x)" and l: "\<not> isspace (last x)"
    and e: "escape_attribute_value x = Inr v"
  shows "unescaped v = unescaped x" and "strip v = v"
proof -
  have "unescaped v = unescaped x \<and> v \<noteq> [] \<and> \<not> isspace (hd v) \<and> \<not> isspace (last v)"
  proof (cases "hd x = CHR ''#'' \<and> hex_valid x")
    case True
    with e ne have "v = x" by (simp add: escape_attribute_value_def)
    with ne h l show ?thesis by simp
  next
    case False
    let ?r = "escape_final (escape_loop x)"
    from escape_loop_first [OF ne] have rne: "?r \<noteq> []"
      and rh: "hd ?r = backslash \<or> hd ?r = hd x" by simp_all
    from escape_loop_last [OF ne] have rl: "last ?r = backslash \<or> last ?r = last x" .
    from rh h have hs: "\<not> isspace (hd ?r)" using backslash_not_space by auto
    from rl l have ls: "\<not> isspace (last ?r)" using backslash_not_space by auto
    from hs have h1: "hd ?r \<noteq> CHR '' ''" using space_isspace by auto
    from ls have l1: "last ?r \<noteq> CHR '' ''" using space_isspace by auto
    from False ne e have "escape_spaces ?r = Inr v"
      by (auto simp: escape_attribute_value_def split: if_splits)
    with escape_spaces_no_trailing_space [OF rne l1] h1 have "v = ?r" by simp
    with rne hs ls escape_loop_unescaped [of x] show ?thesis by simp
  qed
  then show "unescaped v = unescaped x" and "strip v = v" by (simp_all add: strip_id)
qed

lemma unescaped_dropWhile:
  "unescaped (dropWhile (\<lambda>c. c \<noteq> plus_sign) y) = dropWhile (\<lambda>c. c \<noteq> plus_sign) (unescaped y)"
  by (induction y) auto

lemma unescaped_member: "c \<noteq> backslash \<Longrightarrow> c \<in> set (unescaped y) \<longleftrightarrow> c \<in> set y"
  by simp

lemma unescaped_eq_member:
  assumes "unescaped v = unescaped x" and "c \<noteq> backslash"
  shows "c \<in> set v \<longleftrightarrow> c \<in> set x"
proof -
  have "c \<in> set v \<longleftrightarrow> c \<in> set (unescaped v)" using assms(2) by simp
  also have "\<dots> \<longleftrightarrow> c \<in> set (unescaped x)" by (simp only: assms(1))
  also have "\<dots> \<longleftrightarrow> c \<in> set x" using assms(2) by simp
  finally show ?thesis .
qed

lemma unescaped_eq_after_plus:
  assumes "unescaped v = unescaped x"
  shows "equal_sign \<in> set (dropWhile (\<lambda>c. c \<noteq> plus_sign) v)
         \<longleftrightarrow> equal_sign \<in> set (dropWhile (\<lambda>c. c \<noteq> plus_sign) x)"
proof -
  have "unescaped (dropWhile (\<lambda>c. c \<noteq> plus_sign) v) = unescaped (dropWhile (\<lambda>c. c \<noteq> plus_sign) x)"
    by (simp only: unescaped_dropWhile assms)
  then show ?thesis by (rule unescaped_eq_member) simp
qed

subsection \<open>What one iteration on an accepted DN gives\<close>

lemma parse_dn_step_parts:
  assumes "parse_dn_step dn escape True = Inr (Some ((t, v, s), rest))"
  obtains pre post where "get_next_ava dn = (pre @ equal_sign # post, s)"
    and "t = strip pre" and "unescaped v = unescaped (strip post)" and "strip v = v"
    and "validate_attribute_type t = Inr True" and "validate_attribute_value v = Inr True"
    and "rest = drop (Suc (length (pre @ equal_sign # post))) dn"
    and "comma \<notin> set pre" and "plus_sign \<notin> set pre"
proof -
  from assms obtain ava where g: "get_next_ava dn = (ava, s)"
    and sp: "split_ava ava escape True = Inr (t, PyStr v)"
    and ty: "validate_attribute_type t = Inr True"
    and va: "validate_attribute_value v = Inr True"
    and r: "rest = drop (Suc (length ava)) dn"
    by (rule parse_dn_step_Some)
  note tp = valid_type_plain [OF ty]
  from split_ava_found [OF sp tp(1)] obtain pre post where
    ava: "ava = pre @ equal_sign # post" and t: "t = strip pre"
    and x: "if escape then (\<exists>v'. escape_attribute_value (strip post) = Inr v' \<and> PyStr v = PyStr v')
            else PyStr v = PyStr (strip post)"
    by auto
  have u: "unescaped v = unescaped (strip post) \<and> strip v = v"
  proof (cases escape)
    case False
    with x have "v = strip post" by simp
    then show ?thesis by (simp add: strip_idem)
  next
    case True
    with x have e: "escape_attribute_value (strip post) = Inr v" by simp
    have ne: "strip post \<noteq> []"
    proof
      assume "strip post = []"
      with e have "v = []" by (simp add: escape_attribute_value_def)
      with validate_attribute_value_True(1) [OF va] show False by simp
    qed
    from strip_ends [OF ne] have "\<not> isspace (hd (strip post))" "\<not> isspace (last (strip post))"
      by simp_all
    from escape_stripped_value [OF ne this e] show ?thesis by simp
  qed
  have c: "comma \<notin> set pre"
  proof
    assume "comma \<in> set pre"
    then have "comma \<in> set (strip pre)" using plain_not_space(1) by (rule set_strip_nonspace)
    with tp(2) t show False by simp
  qed
  have p: "plus_sign \<notin> set pre"
  proof
    assume "plus_sign \<in> set pre"
    then have "plus_sign \<in> set (strip pre)" using plain_not_space(2) by (rule set_strip_nonspace)
    with tp(3) t show False by simp
  qed
  from u have u1: "unescaped v = unescaped (strip post)" and u2: "strip v = v" by simp_all
  show thesis
    using g r by (intro that [of pre post] t u1 u2 ty va c p) (simp_all only: ava)
qed

lemma dropWhile_first_plus:
  assumes "v = a @ plus_sign # b" and "plus_sign \<notin> set a"
  shows "dropWhile (\<lambda>c. c \<noteq> plus_sign) v = plus_sign # b"
proof -
  have "\<And>x. x \<in> set a \<Longrightarrow> x \<noteq> plus_sign" using assms(2) by auto
  then have "dropWhile (\<lambda>c. c \<noteq> plus_sign) (a @ plus_sign # b)
        = dropWhile (\<lambda>c. c \<noteq> plus_sign) (plus_sign # b)"
    by (rule dropWhile_append2)
  then show ?thesis by (simp add: assms(1))
qed

lemma no_equal_after_plus:
  assumes ava: "\<And>pp rp. pre @ equal_sign # post = pp @ plus_sign # rp \<Longrightarrow> pp \<noteq> [] \<Longrightarrow>
                  plus_sign \<notin> set pp \<Longrightarrow> equal_sign \<notin> set rp"
    and pre: "plus_sign \<notin> set pre"
  shows "equal_sign \<notin> set (dropWhile (\<lambda>c. c \<noteq> plus_sign) (strip post))"
proof (cases "plus_sign \<in> set (strip post)")
  case False
  then have "dropWhile (\<lambda>c. c \<noteq> plus_sign) (strip post) = []" by auto
  then show ?thesis by (simp only: list.set empty_iff not_False_eq_True)
next
  case True
  then obtain a b where v: "strip post = a @ plus_sign # b" and a: "plus_sign \<notin> set a"
    by (meson split_list_first)
  obtain l r where post: "post = l @ strip post @ r" and l: "\<forall>c \<in> set l. isspace c"
    using strip_decompose by blast
  have pl: "plus_sign \<notin> set l" using l plain_not_space(2) by blast
  have "post = l @ a @ plus_sign # b @ r" using post unfolding v by simp
  then have "pre @ equal_sign # post = (pre @ equal_sign # l @ a) @ plus_sign # (b @ r)"
    by simp
  moreover have "pre @ equal_sign # l @ a \<noteq> []" by simp
  moreover have "plus_sign \<notin> set (pre @ equal_sign # l @ a)" using pre pl a by simp
  ultimately have "equal_sign \<notin> set (b @ r)" by (rule ava)
  then have "equal_sign \<notin> set (plus_sign # b)" by simp
  then show ?thesis unfolding dropWhile_first_plus [OF v a] .
qed

lemma parse_dn_step_canonical_facts:
  assumes st: "parse_dn_step dn escape True = Inr (Some ((t, v, s), rest))"
    and tl: "canonical ts" and tr: "comma \<in> set rest \<Longrightarrow> comma \<in> set (join_rdns ts)"
    and en: "rest = [] \<Longrightarrow> ts = []"
  shows "canonical ((t, v, s) # ts)"
    and "comma \<in> set dn \<Longrightarrow> comma \<in> set (join_rdns ((t, v, s) # ts))"
proof -
  from st obtain pre post where g: "get_next_ava dn = (pre @ equal_sign # post, s)"
    and t: "t = strip pre" and v: "unescaped v = unescaped (strip post)"
    and sv: "strip v = v"
    and ty: "validate_attribute_type t = Inr True"
    and va: "validate_attribute_value v = Inr True"
    and r: "rest = drop (Suc (length (pre @ equal_sign # post))) dn"
    and cp: "comma \<notin> set pre" and pp: "plus_sign \<notin> set pre"
    by (rule parse_dn_step_parts)
  have sub: "c \<in> set post" if "c \<in> set v" "c \<noteq> backslash" for c
  proof -
    from that(1) have "c \<in> set (strip post)"
      unfolding unescaped_eq_member [OF v that(2)] .
    then show ?thesis using set_strip by blast
  qed
  from g have "canonical ((t, v, s) # ts)
      \<and> (comma \<in> set dn \<longrightarrow> comma \<in> set (join_rdns ((t, v, s) # ts)))"
  proof (cases rule: get_next_ava_cases)
    case final
    have nc: "comma \<notin> set dn"
    proof
      assume "comma \<in> set dn"
      with final(3) obtain x where "dn = comma # x" by blast
      with final(2) have "pre @ equal_sign # post = comma # x" by simp
      then have "comma \<in> set pre" by (cases pre) simp_all
      with cp show False by simp
    qed
    with final(2) sub [of comma] have cv: "comma \<notin> set v" by auto
    from r final(2) have "rest = []" by simp
    then have "ts = []" by (rule en)
    with final(1) ty va sv cv tl nc show ?thesis by simp
  next
    case (at_comma x)
    from at_comma(4) sub [of comma] have cv: "comma \<notin> set v" by auto
    have "equal_sign \<notin> set (dropWhile (\<lambda>c. c \<noteq> plus_sign) (strip post))"
      using at_comma(5) pp by (rule no_equal_after_plus)
    then have e: "equal_sign \<notin> set (dropWhile (\<lambda>c. c \<noteq> plus_sign) v)"
      by (simp only: unescaped_eq_after_plus [OF v] not_False_eq_True)
    from at_comma(1) ty va sv cv tl e show ?thesis by (simp add: join_rdns_Cons)
  next
    case (at_plus x)
    from at_plus(5) sub [of comma] have cv: "comma \<notin> set v" by auto
    from at_plus(6) sub [of plus_sign] have pv: "plus_sign \<notin> set v" by auto
    from r at_plus(2) have "rest = x" by simp
    with at_plus(3) have "comma \<in> set (join_rdns ts)" by (intro tr) simp
    with at_plus(1) ty va sv cv pv tl show ?thesis by (simp add: join_rdns_Cons)
  qed
  then show "canonical ((t, v, s) # ts)"
    and "comma \<in> set dn \<Longrightarrow> comma \<in> set (join_rdns ((t, v, s) # ts))" by simp_all
qed

lemma parse_dn_accepted_canonical:
  "parse_dn dn escape True = Inr ts \<Longrightarrow>
   canonical ts \<and> (comma \<in> set dn \<longrightarrow> comma \<in> set (join_rdns ts)) \<and> (dn = [] \<longrightarrow> ts = [])"
proof (induction "length dn" arbitrary: dn ts rule: less_induct)
  case less
  show ?case
  proof (cases "parse_dn_step dn escape True")
    case (Inl e)
    with less.prems show ?thesis by (simp add: parse_dn_error)
  next
    case (Inr r)
    show ?thesis
    proof (cases r)
      case None
      with Inr have n: "parse_dn_step dn escape True = Inr None" by simp
      then have "dn = []" by (rule parse_dn_step_None)
      moreover from less.prems have "ts = []" by (simp add: parse_dn_done [OF n])
      ultimately show ?thesis by simp
    next
      case (Some p)
      obtain t v s dn' where p: "p = ((t, v, s), dn')" by (cases p) auto
      with Inr Some have st: "parse_dn_step dn escape True = Inr (Some ((t, v, s), dn'))" by simp
      from less.prems obtain ts' where ts': "parse_dn dn' escape True = Inr ts'"
        and ts: "ts = (t, v, s) # ts'"
        by (auto simp: parse_dn_Cons [OF st] split: sum.splits)
      from st have "length dn' < length dn" by (rule parse_dn_step_shrinks)
      from less.hyps [OF this ts'] have ih: "canonical ts'"
        "comma \<in> set dn' \<Longrightarrow> comma \<in> set (join_rdns ts')" "dn' = [] \<Longrightarrow> ts' = []"
        by simp_all
      from parse_dn_step_canonical_facts [OF st ih]
      have "canonical ((t, v, s) # ts')"
        "comma \<in> set dn \<Longrightarrow> comma \<in> set (join_rdns ((t, v, s) # ts'))" by simp_all
      moreover have "dn \<noteq> []" using st by (auto simp: parse_dn_step_Nil)
      ultimately show ?thesis unfolding ts by simp
    qed
  qed
qed

section \<open>The last separator, and escaping followed by validation\<close>

subsection \<open>The separator of the last triple\<close>

lemma split_ava_loop_leading_comma:
  "split_ava_loop (comma # r) escape strp e = Inr (t, x) \<Longrightarrow> t = [] \<or> comma \<in> set t"
proof (induction "nat e" arbitrary: e rule: less_induct)
  case less
  let ?ava = "comma # r"
  show ?case
  proof (cases "0 < e")
    case False
    with less.prems show ?thesis by (simp add: split_ava_loop.simps [of ?ava escape strp e])
  next
    case True
    from less.prems True obtain c where c: "getitem ?ava (e - 1) = Inr c"
      by (auto simp: split_ava_loop.simps [of ?ava escape strp e] split: sum.splits)
    show ?thesis
    proof (cases "c = backslash")
      case False
      with less.prems True c have sa: "split_at ?ava escape strp e = Inr (t, x)"
        by (simp add: split_ava_loop.simps [of ?ava escape strp e])
      from True have "take (nat e) ?ava = comma # take (nat e - 1) r"
        by (cases "nat e") simp_all
      with True have sl: "slice ?ava 0 e = comma # take (nat e - 1) r"
        by (simp only: slice_from_0 [of e ?ava, OF less_imp_le])
      have "comma \<in> set (slice ?ava 0 e)" by (simp only: sl list.set insertI1)
      then have "comma \<in> set (strip (slice ?ava 0 e))"
        using plain_not_space(1) by (rule set_strip_nonspace)
      with sa \<open>comma \<in> set (slice ?ava 0 e)\<close> show ?thesis
        by (auto simp: split_at_def Let_def split: if_splits sum.splits)
    next
      case bs: True
      let ?e' = "str_rfind_range ?ava equal_sign 0 e"
      have "?e' < e" using True by (rule str_rfind_range_less)
      then have m: "nat ?e' < nat e" using True by linarith
      from less.prems True c bs
      have "split_ava_loop ?ava escape strp ?e' = Inr (t, x)"
        by (simp add: split_ava_loop.simps [of ?ava escape strp e])
      from less.hyps [OF m this] show ?thesis .
    qed
  qed
qed

lemma parse_dn_step_tokens:
  assumes "parse_dn_step dn escape strp = Inr (Some ((t, v, s), rest))"
  obtains ava x where "get_next_ava dn = (ava, s)" and "ava \<noteq> []"
    and "split_ava ava escape strp = Inr (t, x)"
    and "validate_attribute_type t = Inr True"
    and "rest = drop (Suc (length ava)) dn"
proof -
  obtain ava sep where g: "get_next_ava dn = (ava, sep)" by (cases "get_next_ava dn")
  from assms g have ne: "ava \<noteq> []"
    by (auto simp: parse_dn_step_def split: if_splits)
  from assms g ne obtain x where sp: "split_ava ava escape strp = Inr (t, x)"
    and ty: "validate_attribute_type t = Inr True"
    by (auto simp: parse_dn_step_def
        split: sum.splits bool.splits pyval.splits if_splits prod.splits)
  from assms g ne sp ty have s: "sep = s"
    and r: "rest = slice dn (int (length ava) + 1) (int (length dn))"
    by (auto simp: parse_dn_step_def validate_pyval_def
        split: sum.splits bool.splits pyval.splits if_splits)
  from r have "rest = drop (Suc (length ava)) dn"
    by (simp add: slice_to_end nat_add_distrib)
  with g ne sp ty s show thesis by (intro that [of ava x]) simp_all
qed

lemma parse_dn_step_stops:
  assumes "parse_dn_step dn escape strp = Inr None"
  shows "dn = []"
proof -
  obtain ava sep where g: "get_next_ava dn = (ava, sep)" by (cases "get_next_ava dn")
  from assms g have e: "ava = []" by (simp add: parse_dn_step_done)
  from g show ?thesis
  proof (cases rule: get_next_ava_cases)
    case final
    with e show ?thesis by simp
  next
    case (at_comma rest)
    with e show ?thesis by simp
  next
    case (at_plus rest)
    with e show ?thesis by simp
  qed
qed

lemma parse_dn_step_last_separator:
  assumes st: "parse_dn_step dn escape strp = Inr (Some ((t, v, s), []))"
  shows "s = (if last dn = comma then '','' else [])"
proof -
  from st obtain ava x where g: "get_next_ava dn = (ava, s)" and ne: "ava \<noteq> []"
    and sp: "split_ava ava escape strp = Inr (t, x)"
    and ty: "validate_attribute_type t = Inr True"
    and r: "[] = drop (Suc (length ava)) dn"
    by (rule parse_dn_step_tokens)
  note tp = valid_type_plain [OF ty]
  from g show ?thesis
  proof (cases rule: get_next_ava_cases)
    case final
    have nc: "comma \<notin> set dn"
    proof
      assume "comma \<in> set dn"
      with final(3) obtain y where "dn = comma # y" by blast
      with final(2) sp have "split_ava_loop (comma # y) escape strp (str_rfind (comma # y) equal_sign)
          = Inr (t, x)" by (simp add: split_ava_def)
      then have "t = [] \<or> comma \<in> set t" by (rule split_ava_loop_leading_comma)
      with tp(1,2) show False by simp
    qed
    from final(2) ne have "dn \<noteq> []" by simp
    then have "last dn \<in> set dn" by simp
    with nc have "last dn \<noteq> comma" by auto
    with final(1) show ?thesis by simp
  next
    case (at_comma y)
    from r at_comma(2) have "y = []" by simp
    with at_comma(1,2) show ?thesis by simp
  next
    case (at_plus y)
    from r at_plus(2) have "y = []" by simp
    with at_plus(3) show ?thesis by simp
  qed
qed

lemma parse_dn_empty_result:
  assumes "parse_dn dn escape strp = Inr []"
  shows "dn = []"
proof (cases "parse_dn_step dn escape strp")
  case (Inl e)
  from parse_dn_error [OF this] assms show ?thesis by simp
next
  case (Inr q)
  show ?thesis
  proof (cases q)
    case None
    with Inr have "parse_dn_step dn escape strp = Inr None" by simp
    then show ?thesis by (rule parse_dn_step_stops)
  next
    case (Some pr)
    obtain a b where "pr = (a, b)" by (cases pr)
    with Inr Some have "parse_dn_step dn escape strp = Inr (Some (a, b))" by simp
    from parse_dn_Cons [OF this] have
      "parse_dn dn escape strp
       = (case parse_dn b escape strp of Inl e \<Rightarrow> Inl e | Inr ts \<Rightarrow> Inr (a # ts))" .
    with assms have "(case parse_dn b escape strp of Inl e \<Rightarrow> Inl e | Inr ts \<Rightarrow> Inr (a # ts))
       = Inr []" by (simp only:)
    then have False by (cases "parse_dn b escape strp") simp_all
    then show ?thesis ..
  qed
qed

lemma parse_dn_Nil: "parse_dn [] escape strp = Inr []"
proof -
  have "parse_dn_step [] escape strp = Inr None" by (rule parse_dn_step_Nil)
  then show ?thesis by (rule parse_dn_done)
qed

lemma parse_dn_step_rest_last:
  assumes "parse_dn_step dn escape strp = Inr (Some ((t, v, s), rest))" and "rest \<noteq> []"
  shows "last rest = last dn"
proof -
  from assms(1) obtain ava x where "get_next_ava dn = (ava, s)" and "ava \<noteq> []"
    and "split_ava ava escape strp = Inr (t, x)"
    and "validate_attribute_type t = Inr True"
    and d: "rest = drop (Suc (length ava)) dn"
    by (rule parse_dn_step_tokens)
  from assms(2) have "Suc (length ava) < length dn" unfolding d by simp
  then show ?thesis unfolding d by (rule last_drop)
qed

lemma parse_dn_last_separator:
  assumes "parse_dn dn escape strp = Inr ts" and "ts \<noteq> []"
  shows "separator (last ts) = (if last dn = comma then '','' else [])"
  using assms
proof (induction "length dn" arbitrary: dn ts rule: less_induct)
  case less
  from less.prems have dne: "dn \<noteq> []" using parse_dn_Nil [of escape strp] by auto
  have "\<exists>rdn dn'. parse_dn_step dn escape strp = Inr (Some (rdn, dn'))"
  proof (cases "parse_dn_step dn escape strp")
    case (Inl e)
    from parse_dn_error [OF this] less.prems(1) show ?thesis by simp
  next
    case (Inr q)
    show ?thesis
    proof (cases q)
      case None
      with Inr have "parse_dn_step dn escape strp = Inr None" by simp
      then have "dn = []" by (rule parse_dn_step_stops)
      with dne show ?thesis by simp
    next
      case (Some pr)
      with Inr show ?thesis by (cases pr) (simp del: split_paired_Ex)
    qed
  qed
  then obtain rdn dn' where st0: "parse_dn_step dn escape strp = Inr (Some (rdn, dn'))" by blast
  obtain t v s where rdn: "rdn = (t, v, s)" by (cases rdn)
  from st0 rdn have st: "parse_dn_step dn escape strp = Inr (Some ((t, v, s), dn'))" by simp
  from parse_dn_Cons [OF st0] less.prems(1) have
    c: "(case parse_dn dn' escape strp of Inl e \<Rightarrow> Inl e | Inr ts \<Rightarrow> Inr (rdn # ts)) = Inr ts"
    by (simp only:)
  then obtain ts' where ts': "parse_dn dn' escape strp = Inr ts'" and ts: "ts = rdn # ts'"
    by (cases "parse_dn dn' escape strp") auto
  show ?case
  proof (cases "dn' = []")
    case True
    with ts' have "ts' = []" by (simp add: parse_dn_Nil)
    then have l: "last ts = (t, v, s)" by (simp add: ts rdn)
    from st True have "parse_dn_step dn escape strp = Inr (Some ((t, v, s), []))" by simp
    then have "s = (if last dn = comma then '','' else [])" by (rule parse_dn_step_last_separator)
    then show ?thesis unfolding l separator_def by simp
  next
    case False
    have tne: "ts' \<noteq> []"
    proof
      assume "ts' = []"
      with ts' have "parse_dn dn' escape strp = Inr []" by simp
      then have "dn' = []" by (rule parse_dn_empty_result)
      with False show False by simp
    qed
    from st0 have "length dn' < length dn" by (rule parse_dn_step_shrinks)
    from less.hyps [OF this ts' tne]
    have ih: "separator (last ts') = (if last dn' = comma then '','' else [])" .
    from st False have ld: "last dn' = last dn" by (rule parse_dn_step_rest_last)
    from tne have "last ts = last ts'" by (simp add: ts)
    then show ?thesis using ih by (simp only: ld)
  qed
qed

subsection \<open>The escaper's output under the validator's state machine\<close>














text \<open>
  Each family of values left out above holds a value on which the composition raises: a
  trailing SPACE, which the escaper renders as a backslash and a SPACE and the validator
  refuses as last character; a \<open>#\<close> followed by an even number of characters, which the escaper
  returns unchanged and the validator refuses at the \<open>#\<close>; and a comma read in
  \<open>STATE_ESCAPE_HEX\<close>, which the escaper emits unescaped.
\<close>

lemma escape_then_validate_excluded:
  "validate_escaped ''a ''
     = Inl (LDAPInvalidDnError ''SPACE not allowed as last character of Attribute Value'')
   \<and> validate_escaped ''#1a'' = Inl (LDAPInvalidDnError ''special characters # must be escaped'')
   \<and> validate_escaped [backslash, CHR ''4'', CHR '','']
     = Inl (LDAPInvalidDnError ''special characters , must be escaped'')"
  by code_simp

section \<open>The claims\<close>




text \<open>
  C2: for every DN \<open>d\<close> on which \<open>parse_dn\<close> returns a list \<open>ts\<close> of triples, called with its
  default flags (\<open>escape=False\<close>) or with \<open>escape=True\<close> as \<open>safe_dn\<close> calls it, \<open>safe_dn(d)\<close>
  returns the rendering of \<open>ts\<close>; \<open>parse_dn\<close> with its default flags accepts that rendering,
  with the same triples \<open>ts\<close>; and \<open>safe_dn\<close> maps the rendering to itself, so
  \<open>safe_dn(safe_dn(d)) = safe_dn(d)\<close>.
\<close>

theorem safe_dn_round_trip:
  assumes "parse_dn d escape True = Inr ts"
  shows "safe_dn d = Inr (join_rdns ts)
         \<and> parse_dn (join_rdns ts) False True = Inr ts
         \<and> safe_dn (join_rdns ts) = Inr (join_rdns ts)"
proof -
  have "parse_dn d True True = Inr ts"
  proof (cases escape)
    case True
    with assms show ?thesis by simp
  next
    case False
    with assms have "parse_dn d False True = Inr ts" by simp
    then show ?thesis by (rule parse_dn_escape)
  qed
  then have 1: "safe_dn d = Inr (join_rdns ts)" by (simp add: safe_dn_def)
  from assms have "canonical ts" by (simp add: parse_dn_accepted_canonical)
  then have 2: "parse_dn (join_rdns ts) e True = Inr ts" for e
    by (rule parse_dn_canonical)
  from 2 [of True] have 3: "safe_dn (join_rdns ts) = Inr (join_rdns ts)"
    by (simp add: safe_dn_def)
  from 1 2 [of False] 3 show ?thesis by simp
qed

theorem safe_dn_round_trip_witness:
  "parse_dn ''cn = a + sn=c , dc=d'' False True
     = Inr [(''cn'', ''a'', ''+''), (''sn'', ''c'', '',''), (''dc'', ''d'', [])]
   \<and> safe_dn ''cn = a + sn=c , dc=d'' = Inr ''cn=a+sn=c,dc=d''
   \<and> parse_dn ''cn=a+sn=c,dc=d'' False True
     = Inr [(''cn'', ''a'', ''+''), (''sn'', ''c'', '',''), (''dc'', ''d'', [])]
   \<and> safe_dn ''cn=a+sn=c,dc=d'' = Inr ''cn=a+sn=c,dc=d''
   \<and> parse_dn ''cn = a#b , dc=d'' True True
     = Inr [(''cn'', CHR ''a'' # backslash # ''#b'', '',''), (''dc'', ''d'', [])]
   \<and> safe_dn ''cn = a#b , dc=d'' = Inr (''cn=a'' @ backslash # ''#b,dc=d'')
   \<and> parse_dn (''cn=a'' @ backslash # ''#b,dc=d'') False True
     = Inr [(''cn'', CHR ''a'' # backslash # ''#b'', '',''), (''dc'', ''d'', [])]
   \<and> safe_dn (''cn=a'' @ backslash # ''#b,dc=d'') = Inr (''cn=a'' @ backslash # ''#b,dc=d'')"
proof -
  have p: "parse_dn ''cn = a + sn=c , dc=d'' False True
     = Inr [(''cn'', ''a'', ''+''), (''sn'', ''c'', '',''), (''dc'', ''d'', [])]"
    by code_simp
  have j: "join_rdns [(''cn'', ''a'', ''+''), (''sn'', ''c'', '',''), (''dc'', ''d'', [])]
     = ''cn=a+sn=c,dc=d''"
    by (simp add: join_rdns_def)
  have q: "parse_dn ''cn = a#b , dc=d'' True True
     = Inr [(''cn'', CHR ''a'' # backslash # ''#b'', '',''), (''dc'', ''d'', [])]"
    by code_simp
  have k: "join_rdns [(''cn'', CHR ''a'' # backslash # ''#b'', '',''), (''dc'', ''d'', [])]
     = ''cn=a'' @ backslash # ''#b,dc=d''"
    by (simp add: join_rdns_def)
  from safe_dn_round_trip [OF p] safe_dn_round_trip [OF q] show ?thesis
    by (simp only: p q j k simp_thms)
qed

text \<open>
  C3: the code refuses the well-formed hex value \<open>#1a2b\<close>.  After the hex checks the
  function does not return: it runs the escape state machine over the whole value, and the
  leading \<open>#\<close> is a special character in \<open>STATE_ANY\<close>.  The odd digit count of \<open>#1a2\<close> is
  refused as the claim says.
\<close>

theorem validate_hex_value_refused:
  "validate_attribute_value ''#1a2b''
     = Inl (LDAPInvalidDnError ''special characters # must be escaped'')
   \<and> validate_attribute_value ''#1a2''
     = Inl (LDAPInvalidDnError ''hex representation must be in the form of <HEX><HEX> pairs'')"
  by code_simp

text \<open>
  C4: \<open>parse_dn("cn=a+ou=b,dc=example")\<close> with the default flags returns the three triples
  \<open>("cn","a","+")\<close>, \<open>("ou","b",",")\<close>, \<open>("dc","example","")\<close>, in this order.
\<close>

theorem parse_dn_multivalued_rdn:
  "parse_dn ''cn=a+ou=b,dc=example'' False True
   = Inr [(''cn'', ''a'', ''+''), (''ou'', ''b'', '',''), (''dc'', ''example'', '''')]"
  by code_simp

text \<open>
  C5: in \<open>STATE_ESCAPE\<close>, on a character that is neither a hex digit nor escapable, the code
  emits two backslashes and the character but stays in \<open>STATE_ESCAPE\<close>: a backslash followed
  by \<open>zz\<close> is escaped to two backslashes, \<open>z\<close>, two backslashes, \<open>z\<close>, two backslashes; the
  claim gives two backslashes and \<open>zz\<close>.
\<close>

theorem escape_step_other_stays_in_escape:
  "escape_step (STATE_ESCAPE, [], []) (CHR ''z'')
     = (STATE_ESCAPE, [backslash, backslash, CHR ''z''], [])
   \<and> escape_attribute_value [backslash, CHR ''z'', CHR ''z'']
     = Inr [backslash, backslash, CHR ''z'', backslash, backslash, CHR ''z'',
            backslash, backslash]"
  by code_simp

text \<open>
  C6: \<open>escape_attribute_value\<close> returns a string on every input, the empty string on the
  empty input, and on a non-empty input the buffer built by the loop and the final-state
  statements is non-empty when its first and last characters are read.
\<close>

theorem escape_attribute_value_total:
  "(\<exists>s. escape_attribute_value v = Inr s)
   \<and> escape_attribute_value [] = Inr []
   \<and> (v = [] \<or> escape_final (escape_loop v) \<noteq> [])"
  by (simp add: escape_attribute_value_def escape_spaces_returns escape_final_nonempty
        escape_loop_buffer_inv)

theorem escape_attribute_value_total_witness:
  "(\<exists>s. escape_attribute_value ''a'' = Inr s)
   \<and> escape_attribute_value [] = Inr []
   \<and> ''a'' \<noteq> [] \<and> escape_final (escape_loop ''a'') \<noteq> []"
  using escape_attribute_value_total [of "''a''"] by simp

text \<open>
  C7: each validator returns false exactly on the empty string; on a non-empty string it
  returns true or raises \<open>LDAPInvalidDnError\<close>.
\<close>

theorem validators_false_iff_empty:
  "(validate_attribute_type s = Inr False \<longleftrightarrow> s = [])
   \<and> (validate_attribute_value s = Inr False \<longleftrightarrow> s = [])
   \<and> (s \<noteq> [] \<longrightarrow>
        (validate_attribute_type s = Inr True
           \<or> (\<exists>m. validate_attribute_type s = Inl (LDAPInvalidDnError m)))
      \<and> (validate_attribute_value s = Inr True
           \<or> (\<exists>m. validate_attribute_value s = Inl (LDAPInvalidDnError m))))"
  using validate_attribute_type_cases [of s] validate_attribute_value_cases [of s]
  by auto

theorem validators_false_iff_empty_witness:
  "validate_attribute_type ''cn'' \<noteq> Inr False \<and> validate_attribute_value ''cn'' \<noteq> Inr False
   \<and> ''cn'' \<noteq> []
   \<and> (validate_attribute_type ''cn'' = Inr True
        \<or> (\<exists>m. validate_attribute_type ''cn'' = Inl (LDAPInvalidDnError m)))
   \<and> (validate_attribute_value ''cn'' = Inr True
        \<or> (\<exists>m. validate_attribute_value ''cn'' = Inl (LDAPInvalidDnError m)))"
  using validators_false_iff_empty [of "''cn''"] by simp

text \<open>
  C8: on a substring without separating \<open>=\<close>, \<open>split_ava\<close> with \<open>strip=True\<close> returns the
  empty type and the bound method \<open>ava.strip\<close>, not the stripped string: the last line of
  the function names the method without calling it.
\<close>

theorem split_ava_without_equal_returns_method:
  "split_ava '' abc '' False True = Inr ([], PyStripMethod '' abc '')
   \<and> split_ava '' abc '' False True \<noteq> Inr ([], PyStr ''abc'')"
  by code_simp

text \<open>
  C9, as stated (the separator is \<open>""\<close> exactly on the last triple), fails:
  \<open>parse_dn("cn=a,")\<close> returns the single triple \<open>("cn","a",",")\<close>, whose separator is a
  comma.
\<close>

theorem parse_dn_last_separator_counterexample:
  "parse_dn ''cn=a,'' False True = Inr [(''cn'', ''a'', '','')]"
  by code_simp

text \<open>
  C9, amended: when \<open>parse_dn\<close> returns a non-empty list, with any flags, every separator in
  it is \<open>","\<close>, \<open>"+"\<close> or \<open>""\<close>, every triple before the last has separator \<open>","\<close> or \<open>"+"\<close>,
  and the separator of the last triple is \<open>","\<close> when the input ends with a comma and \<open>""\<close>
  otherwise.  So the separator is \<open>""\<close> exactly on the last triple for every accepted input
  that does not end with a comma, and the last separator is never \<open>"+"\<close>.
\<close>

theorem parse_dn_separators:
  assumes "parse_dn dn escape strp = Inr rdns" and "rdns \<noteq> []"
  shows "(\<forall>rdn \<in> set rdns. separator rdn \<in> {'','', ''+'', []})
         \<and> (\<forall>rdn \<in> set (butlast rdns). separator rdn \<in> {'','', ''+''})
         \<and> separator (last rdns) = (if last dn = comma then '','' else [])"
proof -
  from parse_dn_loop_separators [of dn escape strp "[]" rdns] assms(1)
  have "(\<forall>rdn \<in> set rdns. separator rdn \<in> {'','', ''+'', []})
        \<and> (\<forall>rdn \<in> set (butlast rdns). separator rdn \<in> {'','', ''+''})"
    by (simp add: parse_dn_def)
  moreover from assms
  have "separator (last rdns) = (if last dn = comma then '','' else [])"
    by (rule parse_dn_last_separator)
  ultimately show ?thesis by simp
qed

theorem parse_dn_separators_witness:
  "parse_dn ''cn=a+ou=b,dc=example'' False True
     = Inr [(''cn'', ''a'', ''+''), (''ou'', ''b'', '',''), (''dc'', ''example'', [])]
   \<and> separator (''cn'', ''a'', ''+'') \<in> {'','', ''+''}
   \<and> separator (''ou'', ''b'', '','') \<in> {'','', ''+''}
   \<and> last ''cn=a+ou=b,dc=example'' \<noteq> comma
   \<and> separator (''dc'', ''example'', []) = []
   \<and> parse_dn ''cn=a,dc=b,'' False True
     = Inr [(''cn'', ''a'', '',''), (''dc'', ''b'', '','')]
   \<and> separator (''cn'', ''a'', '','') \<in> {'','', ''+''}
   \<and> last ''cn=a,dc=b,'' = comma
   \<and> separator (''dc'', ''b'', '','') = '',''"
proof -
  have h: "parse_dn ''cn=a+ou=b,dc=example'' False True
     = Inr [(''cn'', ''a'', ''+''), (''ou'', ''b'', '',''), (''dc'', ''example'', [])]"
    by code_simp
  have k: "parse_dn ''cn=a,dc=b,'' False True
     = Inr [(''cn'', ''a'', '',''), (''dc'', ''b'', '','')]"
    by code_simp
  from parse_dn_separators [OF h] parse_dn_separators [OF k] h k show ?thesis by simp
qed

text \<open>
  C10: the loop of \<open>parse_dn\<close> ends on every input, after at most \<open>len(dn) + 1\<close> iterations:
  an iteration either finds an empty AVA and ends the loop, or finds a non-empty AVA and
  then continues, if at all, with a strictly shorter \<open>dn\<close>.
\<close>

theorem parse_dn_terminates:
  "parse_dn_fuel (Suc (length dn)) dn escape strp rdns = Some (parse_dn_loop dn escape strp rdns)
   \<and> (fst (get_next_ava dn) = [] \<and> parse_dn_step dn escape strp = Inr None
      \<or> fst (get_next_ava dn) \<noteq> []
        \<and> length (slice dn (int (length (fst (get_next_ava dn))) + 1) (int (length dn)))
            < length dn)"
proof -
  have "fst (get_next_ava dn) \<noteq> [] \<Longrightarrow> dn \<noteq> []"
    using get_next_ava_empty by auto
  then have "fst (get_next_ava dn) \<noteq> [] \<Longrightarrow>
      length (slice dn (int (length (fst (get_next_ava dn))) + 1) (int (length dn))) < length dn"
    by (simp add: slice_to_end)
  moreover have "parse_dn_fuel (Suc (length dn)) dn escape strp rdns
      = Some (parse_dn_loop dn escape strp rdns)"
    by (rule parse_dn_fuel_enough) simp
  ultimately show ?thesis
    by (auto simp: parse_dn_step_done)
qed

theorem parse_dn_terminates_witness:
  "parse_dn_fuel (Suc (length ''cn=a,dc=b'')) ''cn=a,dc=b'' False True []
     = Some (parse_dn_loop ''cn=a,dc=b'' False True [])
   \<and> fst (get_next_ava ''cn=a,dc=b'') \<noteq> []
   \<and> length (slice ''cn=a,dc=b'' (int (length (fst (get_next_ava ''cn=a,dc=b''))) + 1)
               (int (length ''cn=a,dc=b'')))
       < length ''cn=a,dc=b''"
proof -
  have h: "fst (get_next_ava ''cn=a,dc=b'') \<noteq> []" by code_simp
  from parse_dn_terminates [of "''cn=a,dc=b''" False True "[]"] h show ?thesis by blast
qed

end
